theory Spec2Isabelle
  imports Main "HOL-Library.While_Combinator"
begin

section \<open>The board engine of \<^verbatim>\<open>minesweeper.py\<close>\<close>

text \<open>
  The engine keeps three 2-d Python lists indexed \<^verbatim>\<open>[x][y]\<close>: \<^verbatim>\<open>mines\<close>,
  \<^verbatim>\<open>exposed\<close> and \<^verbatim>\<open>counts\<close>. They are modelled as lists of lists. Coordinates are
  Python integers (\<open>int\<close>); every read and write of the source is guarded by
  \<^verbatim>\<open>_is_outside_board\<close>, so an index is never negative when a list is accessed. An index
  beyond the end of a list raises \<^verbatim>\<open>IndexError\<close> in Python; this can only happen when a
  grid does not have the shape \<open>width \<times> height\<close>, and the predicate \<open>shape\<close> below states
  exactly the condition under which all accesses are in range.
\<close>

type_synonym 'a grid = "'a list list"

definition gget :: "'a grid \<Rightarrow> int \<Rightarrow> int \<Rightarrow> 'a" where
  "gget g x y = g ! nat x ! nat y"

definition gset :: "'a grid \<Rightarrow> int \<Rightarrow> int \<Rightarrow> 'a \<Rightarrow> 'a grid" where
  "gset g x y v = g[nat x := (g ! nat x)[nat y := v]]"

text \<open>\<^verbatim>\<open>[[v for y in range(h)] for x in range(w)]\<close>\<close>

definition new_grid :: "int \<Rightarrow> int \<Rightarrow> 'a \<Rightarrow> 'a grid" where
  "new_grid w h v = replicate (nat w) (replicate (nat h) v)"

definition shape :: "int \<Rightarrow> int \<Rightarrow> 'a grid \<Rightarrow> bool" where
  "shape w h g = (length g = nat w \<and> list_all (\<lambda>col. length col = nat h) g)"

record game_config =
  cfg_width :: int
  cfg_height :: int
  cfg_num_mines :: int

datatype game_status = PLAYING | VICTORY | DEFEAT | QUIT

datatype game_result = GameResult (victory: bool) (result_num_moves: int)

datatype square = Square (sq_x: int) (sq_y: int) (sq_num_mines: int)

datatype move_result = MoveResult (mr_status: game_status) (new_squares: "square set")

text \<open>
  The three \<^verbatim>\<open>ValueError\<close>s of \<^verbatim>\<open>select\<close> are told apart by their message; the fourth is
  the \<^verbatim>\<open>ValueError\<close> of \<^verbatim>\<open>result\<close>.
\<close>

datatype error = OutsideBoard | AlreadyOver | AlreadyExposed | GameNotOver

text \<open>
  The attributes of \<^verbatim>\<open>Game\<close>. The private attributes \<^verbatim>\<open>_num_exposed_squares\<close>,
  \<^verbatim>\<open>_explosion\<close>, \<^verbatim>\<open>_quit\<close> and \<^verbatim>\<open>_num_safe_squares\<close> lose their underscore
  (\<^verbatim>\<open>_quit\<close> is \<open>quit_flag\<close>, the method \<^verbatim>\<open>quit\<close> keeps its name). The display-only
  \<^verbatim>\<open>_flags\<close> is read by no method of the engine and is left out.
\<close>

record game =
  width :: int
  height :: int
  num_mines :: int
  num_moves :: int
  num_exposed_squares :: int
  explosion :: bool
  quit_flag :: bool
  num_safe_squares :: int
  exposed :: "bool grid"
  counts :: "int grid"
  mines :: "bool grid"

definition is_outside_board :: "game \<Rightarrow> int \<Rightarrow> int \<Rightarrow> bool" where
  "is_outside_board g x y =
     (if x < 0 \<or> x \<ge> width g then True
      else if y < 0 \<or> y \<ge> height g then True
      else False)"

definition game_over :: "game \<Rightarrow> bool" where
  "game_over g = (explosion g \<or> quit_flag g \<or> num_exposed_squares g = num_safe_squares g)"

definition status :: "game \<Rightarrow> game_status" where
  "status g =
     (if \<not> game_over g then PLAYING
      else if quit_flag g then QUIT
      else if explosion g then DEFEAT
      else VICTORY)"

definition result :: "game \<Rightarrow> error + game_result" where
  "result g =
     (if \<not> game_over g then Inl GameNotOver
      else Inr (GameResult (status g = VICTORY) (num_moves g)))"

definition quit :: "game \<Rightarrow> game" where
  "quit g = g\<lparr>quit_flag := True\<rparr>"

definition expose_square :: "game \<Rightarrow> int \<Rightarrow> int \<Rightarrow> game" where
  "expose_square g x y =
     g\<lparr>exposed := gset (exposed g) x y True,
       num_exposed_squares := num_exposed_squares g + 1\<rparr>"

definition test_if_count_0 :: "game \<Rightarrow> int \<Rightarrow> int \<Rightarrow> bool" where
  "test_if_count_0 g x y = (gget (counts g) x y = 0)"

text \<open>\<^verbatim>\<open>itertools.product([-1, 0, 1], repeat=2)\<close>, in its order.\<close>

definition offsets :: "(int \<times> int) list" where
  "offsets = List.product [-1, 0, 1] [-1, 0, 1]"

text \<open>
  The region growing of \<^verbatim>\<open>_update\<close>. The loop state is the game, the stack and the list
  of squares found so far. The Python stack pops and appends at the end of a list; here the
  top of the stack is the head of the list. \<open>flood_visit\<close> is the body of the inner
  \<^verbatim>\<open>for dx, dy\<close> loop for the popped square \<open>(x, y)\<close>, \<open>flood_step\<close> is one round of the
  \<^verbatim>\<open>while len(stack) > 0\<close> loop, and the loop itself is \<open>while_option\<close>: its value is
  \<open>None\<close> when the loop does not terminate.
\<close>

type_synonym flood_state = "game \<times> (int \<times> int) list \<times> square list"

definition flood_visit :: "int \<Rightarrow> int \<Rightarrow> int \<times> int \<Rightarrow> flood_state \<Rightarrow> flood_state" where
  "flood_visit x y d s =
     (case d of (dx, dy) \<Rightarrow> case s of (g, stack, squares) \<Rightarrow>
        if dx = 0 \<and> dy = 0 then s
        else
          let new_x = x + dx; new_y = y + dy in
          if \<not> is_outside_board g new_x new_y then
            if \<not> gget (exposed g) new_x new_y then
              let g' = expose_square g new_x new_y;
                  squares' = squares @ [Square new_x new_y (gget (counts g') new_x new_y)]
              in if test_if_count_0 g' new_x new_y
                 then (g', (new_x, new_y) # stack, squares')
                 else (g', stack, squares')
            else s
          else s)"

definition flood_step :: "flood_state \<Rightarrow> flood_state" where
  "flood_step s =
     (case s of (g, stack, squares) \<Rightarrow>
        case stack of
          [] \<Rightarrow> s
        | p # rest \<Rightarrow> fold (flood_visit (fst p) (snd p)) offsets (g, rest, squares))"

definition flood :: "flood_state \<Rightarrow> flood_state option" where
  "flood s = while_option (\<lambda>(g, stack, squares). stack \<noteq> []) flood_step s"

text \<open>\<^verbatim>\<open>_update\<close> returns the list of squares; the model returns the mutated game with it.\<close>

definition update :: "game \<Rightarrow> int \<Rightarrow> int \<Rightarrow> (square list \<times> game) option" where
  "update g x y =
     (let g1 = expose_square g x y;
          squares = [Square x y (gget (counts g1) x y)]
      in if gget (mines g1) x y then Some (squares, g1\<lparr>explosion := True\<rparr>)
         else if gget (counts g1) x y \<noteq> 0 then Some (squares, g1)
         else map_option (\<lambda>(g2, stack, squares2). (squares2, g2)) (flood (g1, [(x, y)], squares)))"

text \<open>
  \<^verbatim>\<open>select\<close> either raises or returns a \<^verbatim>\<open>MoveResult\<close>; either way the game object is
  what it is afterwards, so the model returns the outcome together with the game.
\<close>

definition select :: "game \<Rightarrow> int \<Rightarrow> int \<Rightarrow> ((error + move_result) \<times> game) option" where
  "select g x y =
     (if is_outside_board g x y then Some (Inl OutsideBoard, g)
      else if explosion g then Some (Inl AlreadyOver, g)
      else if gget (exposed g) x y then Some (Inl AlreadyExposed, g)
      else
        case update (g\<lparr>num_moves := num_moves g + 1\<rparr>) x y of
          None \<Rightarrow> None
        | Some (squares, g') \<Rightarrow> Some (Inr (MoveResult (status g') (set squares)), g'))"

section \<open>Construction\<close>

text \<open>
  \<^verbatim>\<open>_place_mines\<close> draws coordinates with \<^verbatim>\<open>random.randint\<close> until the set
  \<^verbatim>\<open>locations\<close> holds \<^verbatim>\<open>num_mines\<close> of them. The random draws are a parameter of the
  model: the list \<open>rnd\<close> of the successive pairs \<open>(x, y)\<close> drawn. The Python set
  \<^verbatim>\<open>locations\<close> is a list without repetitions (\<open>List.insert\<close> adds an element only when
  it is new). The loop consumes one pair per round; when the list of draws is used up
  before the loop has finished, the model returns \<open>None\<close>.
\<close>

fun place_loop :: "game \<Rightarrow> (int \<times> int) list \<Rightarrow> (int \<times> int) list \<Rightarrow> (int \<times> int) list option" where
  "place_loop g locations [] =
     (if int (length locations) < num_mines g then None else Some locations)"
| "place_loop g locations (p # rnd) =
     (if int (length locations) < num_mines g
      then place_loop g (List.insert p locations) rnd
      else Some locations)"

definition place_mines :: "game \<Rightarrow> (int \<times> int) list \<Rightarrow> game option" where
  "place_mines g rnd =
     (case place_loop g [] rnd of
        None \<Rightarrow> None
      | Some locations \<Rightarrow>
          Some (fold (\<lambda>location g. g\<lparr>mines := gset (mines g) (fst location) (snd location) True\<rparr>)
                  locations g))"

text \<open>\<^verbatim>\<open>itertools.product(range(self.width), range(self.height))\<close>\<close>

definition cells :: "game \<Rightarrow> (int \<times> int) list" where
  "cells g = List.product [0..width g - 1] [0..height g - 1]"

text \<open>
  \<^verbatim>\<open>_init_counts\<close>: \<open>init_counts_visit\<close> is the body of the inner loop over
  \<^verbatim>\<open>dx, dy\<close>; a Boolean added to an integer counts as 0 or 1.
\<close>

definition init_counts_visit :: "int \<Rightarrow> int \<Rightarrow> int \<times> int \<Rightarrow> game \<Rightarrow> game" where
  "init_counts_visit x y d g =
     (case d of (dx, dy) \<Rightarrow>
        if dx = 0 \<and> dy = 0 then g
        else if \<not> is_outside_board g (x + dx) (y + dy)
        then g\<lparr>counts := gset (counts g) x y
                 (gget (counts g) x y + (if gget (mines g) (x + dx) (y + dy) then 1 else 0))\<rparr>
        else g)"

definition init_counts :: "game \<Rightarrow> game" where
  "init_counts g = fold (\<lambda>c g. fold (init_counts_visit (fst c) (snd c)) offsets g) (cells g) g"

text \<open>
  \<^verbatim>\<open>Game.__init__(config, mines=None)\<close>. The optional layout is used when it is truthy
  (given and not the empty list); \<^verbatim>\<open>copy.deepcopy\<close> of an immutable value is the value.
\<close>

definition game_init :: "game_config \<Rightarrow> bool grid option \<Rightarrow> (int \<times> int) list \<Rightarrow> game option" where
  "game_init config mines_arg rnd =
     (let g = \<lparr>width = cfg_width config,
               height = cfg_height config,
               num_mines = cfg_num_mines config,
               num_moves = 0,
               num_exposed_squares = 0,
               explosion = False,
               quit_flag = False,
               num_safe_squares = cfg_width config * cfg_height config - cfg_num_mines config,
               exposed = new_grid (cfg_width config) (cfg_height config) False,
               counts = new_grid (cfg_width config) (cfg_height config) 0,
               mines = []\<rparr>
      in map_option init_counts
           (case mines_arg of
              Some ms \<Rightarrow>
                if ms \<noteq> [] then Some (g\<lparr>mines := ms\<rparr>)
                else place_mines (g\<lparr>mines := new_grid (width g) (height g) False\<rparr>) rnd
            | None \<Rightarrow> place_mines (g\<lparr>mines := new_grid (width g) (height g) False\<rparr>) rnd))"

section \<open>What the board holds\<close>

text \<open>
  The notions the properties are stated with: the cells of the board, the in-bounds
  8-neighbours of a cell, the number of mines among them, and the cells that are exposed
  or mined.
\<close>

definition in_board :: "game \<Rightarrow> int \<times> int \<Rightarrow> bool" where
  "in_board g c = (0 \<le> fst c \<and> fst c < width g \<and> 0 \<le> snd c \<and> snd c < height g)"

definition is_exposed :: "game \<Rightarrow> int \<times> int \<Rightarrow> bool" where
  "is_exposed g c = gget (exposed g) (fst c) (snd c)"

definition is_mine :: "game \<Rightarrow> int \<times> int \<Rightarrow> bool" where
  "is_mine g c = gget (mines g) (fst c) (snd c)"

definition count_at :: "game \<Rightarrow> int \<times> int \<Rightarrow> int" where
  "count_at g c = gget (counts g) (fst c) (snd c)"

definition neighbours :: "game \<Rightarrow> int \<times> int \<Rightarrow> (int \<times> int) list" where
  "neighbours g c =
     filter (in_board g)
       (map (\<lambda>d. (fst c + fst d, snd c + snd d)) (filter (\<lambda>d. d \<noteq> (0, 0)) offsets))"

definition neighbour_mines :: "game \<Rightarrow> int \<times> int \<Rightarrow> int" where
  "neighbour_mines g c = int (length (filter (is_mine g) (neighbours g c)))"

definition exposed_cells :: "game \<Rightarrow> (int \<times> int) list" where
  "exposed_cells g = filter (is_exposed g) (cells g)"

definition mine_cells :: "game \<Rightarrow> (int \<times> int) list" where
  "mine_cells g = filter (is_mine g) (cells g)"

text \<open>
  \<open>wf_game\<close>: the three grids have the shape of the board, so that every guarded access
  of the engine is in range. \<open>game_inv\<close>: the facts the constructor establishes and every
  method keeps.
\<close>

definition wf_game :: "game \<Rightarrow> bool" where
  "wf_game g =
     (0 \<le> width g \<and> 0 \<le> height g \<and>
      shape (width g) (height g) (exposed g) \<and>
      shape (width g) (height g) (counts g) \<and>
      shape (width g) (height g) (mines g))"

definition game_inv :: "game \<Rightarrow> bool" where
  "game_inv g =
     (wf_game g \<and>
      list_all (\<lambda>c. count_at g c = neighbour_mines g c) (cells g) \<and>
      num_exposed_squares g = int (length (exposed_cells g)) \<and>
      int (length (mine_cells g)) = num_mines g \<and>
      num_safe_squares g = width g * height g - num_mines g \<and>
      explosion g = list_ex (is_mine g) (exposed_cells g))"

section \<open>Notions for the constructor\<close>

text \<open>
  \<open>layout_count w h ms\<close> is the number of mines a supplied layout holds on a board of
  width \<open>w\<close> and height \<open>h\<close>; \<open>rnd_in_range\<close> says that every pair of draws is a result
  \<^verbatim>\<open>random.randint(0, width - 1)\<close>, \<^verbatim>\<open>random.randint(0, height - 1)\<close> can give;
  \<open>visit_hits\<close> counts what the inner loop of \<^verbatim>\<open>_init_counts\<close> adds for one cell;
  \<open>blank_game\<close> is the game before \<^verbatim>\<open>_init_counts\<close> runs, \<open>fresh\<close> describes it, and
  \<open>constructed\<close> is what holds of a game when the constructor returns.
\<close>

definition layout_count :: "int \<Rightarrow> int \<Rightarrow> bool grid \<Rightarrow> nat" where
  "layout_count w h ms =
     length (filter (\<lambda>c. gget ms (fst c) (snd c)) (List.product [0..w - 1] [0..h - 1]))"

definition rnd_in_range :: "int \<Rightarrow> int \<Rightarrow> (int \<times> int) list \<Rightarrow> bool" where
  "rnd_in_range w h rnd = list_all (\<lambda>p. 0 \<le> fst p \<and> fst p \<le> w - 1 \<and> 0 \<le> snd p \<and> snd p \<le> h - 1) rnd"

definition visit_hits :: "game \<Rightarrow> int \<times> int \<Rightarrow> (int \<times> int) list \<Rightarrow> int" where
  "visit_hits g c ds =
     int (length (filter (\<lambda>d. d \<noteq> (0, 0) \<and> in_board g (fst c + fst d, snd c + snd d) \<and>
                              is_mine g (fst c + fst d, snd c + snd d)) ds))"

definition fresh :: "game \<Rightarrow> bool" where
  "fresh g =
     (0 \<le> width g \<and> 0 \<le> height g \<and> num_moves g = 0 \<and> num_exposed_squares g = 0 \<and>
      \<not> explosion g \<and> \<not> quit_flag g \<and>
      num_safe_squares g = width g * height g - num_mines g \<and>
      exposed g = new_grid (width g) (height g) False \<and>
      counts g = new_grid (width g) (height g) 0 \<and>
      shape (width g) (height g) (mines g))"

definition blank_game :: "game_config \<Rightarrow> bool grid \<Rightarrow> game" where
  "blank_game config ms =
     \<lparr>width = cfg_width config,
      height = cfg_height config,
      num_mines = cfg_num_mines config,
      num_moves = 0,
      num_exposed_squares = 0,
      explosion = False,
      quit_flag = False,
      num_safe_squares = cfg_width config * cfg_height config - cfg_num_mines config,
      exposed = new_grid (cfg_width config) (cfg_height config) False,
      counts = new_grid (cfg_width config) (cfg_height config) 0,
      mines = ms\<rparr>"

definition constructed :: "game_config \<Rightarrow> game \<Rightarrow> bool" where
  "constructed config g =
     (game_inv g \<and> width g = cfg_width config \<and> height g = cfg_height config \<and>
      num_mines g = cfg_num_mines config \<and> num_moves g = 0 \<and> exposed_cells g = [] \<and>
      \<not> quit_flag g \<and> \<not> explosion g)"


text \<open>
  \<open>construction_post\<close> is the postcondition of the constructor that the properties name: the
  board has the configured size, the configured number of its cells are mines, and every
  count is the number of mines among the in-bounds 8-neighbours.
\<close>

definition construction_post :: "game_config \<Rightarrow> game \<Rightarrow> bool" where
  "construction_post config g =
     (width g = cfg_width config \<and> height g = cfg_height config \<and>
      int (length (mine_cells g)) = cfg_num_mines config \<and>
      list_all (\<lambda>c. count_at g c = neighbour_mines g c) (cells g))"

section \<open>Sequences of calls\<close>

text \<open>
  A caller's calls on one game, in order: \<^verbatim>\<open>select(x, y)\<close> or \<^verbatim>\<open>quit()\<close>. \<open>play\<close> makes the
  calls one after the other, goes on after a call of \<^verbatim>\<open>select\<close> that raised (the game is
  then as it was), and returns the game at the end with the number of calls of
  \<^verbatim>\<open>select\<close> that returned.
\<close>

datatype op = Select int int | Quit

fun play :: "game \<Rightarrow> op list \<Rightarrow> (game \<times> nat) option" where
  "play g [] = Some (g, 0)"
| "play g (Quit # ops) = play (quit g) ops"
| "play g (Select x y # ops) =
     (case select g x y of
        None \<Rightarrow> None
      | Some (r, g') \<Rightarrow>
          (case play g' ops of
             None \<Rightarrow> None
           | Some (gf, n) \<Rightarrow> Some (gf, (case r of Inl e \<Rightarrow> n | Inr m \<Rightarrow> Suc n))))"

section \<open>The solver \<^verbatim>\<open>CSPAI\<close>\<close>

text \<open>
  The solver raises no error of its own; the one failure its code can run into is
  \<^verbatim>\<open>eq_values[i, j] -= 1\<close> on an entry that is \<^verbatim>\<open>None\<close>, a \<^verbatim>\<open>TypeError\<close>.
\<close>

datatype ai_error = TypeError

text \<open>
  The attributes of \<^verbatim>\<open>CSPAI\<close> (\<^verbatim>\<open>width\<close>, \<^verbatim>\<open>height\<close> and \<^verbatim>\<open>_flags\<close> are \<open>ai_width\<close>,
  \<open>ai_height\<close> and \<open>ai_flags\<close>, apart from the fields of the game). A Python set is a list:
  \<^verbatim>\<open>add\<close> is \<open>List.insert\<close>, \<^verbatim>\<open>s - {x}\<close> is \<open>removeAll x s\<close>, \<^verbatim>\<open>len(s)\<close> is the number of
  elements \<open>card (set s)\<close>, a loop over a set is a fold over the list, and two sets are
  equal when the lists have the same elements.
\<close>

record cspai =
  ai_width :: int
  ai_height :: int
  exposed_squares :: "(int \<times> int) list"
  ai_flags :: "(int \<times> int) list"

text \<open>The property \<^verbatim>\<open>Game.state\<close>: \<open>None\<close> for an unexposed cell, its count otherwise.\<close>

definition state :: "game \<Rightarrow> int option grid" where
  "state g =
     fold (\<lambda>c st. if gget (exposed g) (fst c) (snd c)
                   then gset st (fst c) (snd c) (Some (gget (counts g) (fst c) (snd c)))
                   else st)
       (cells g) (new_grid (width g) (height g) None)"

text \<open>\<^verbatim>\<open>CSPAI.reset\<close> and \<^verbatim>\<open>CSPAI.update\<close> (\<open>ai_update\<close>, on the squares of a \<^verbatim>\<open>MoveResult\<close>).\<close>

definition reset :: "cspai \<Rightarrow> game_config \<Rightarrow> cspai" where
  "reset ai config =
     ai\<lparr>ai_width := cfg_width config, ai_height := cfg_height config,
        exposed_squares := [], ai_flags := []\<rparr>"

definition ai_update :: "cspai \<Rightarrow> square list \<Rightarrow> cspai" where
  "ai_update ai new_squares_list =
     fold (\<lambda>position ai. ai\<lparr>exposed_squares :=
                                 List.insert (sq_x position, sq_y position) (exposed_squares ai)\<rparr>)
       new_squares_list ai"

text \<open>
  \<^verbatim>\<open>calc_equations\<close>: \<open>calc_visit\<close> is the body of the two inner loops over \<^verbatim>\<open>i\<close> and
  \<^verbatim>\<open>j\<close> for the exposed square \<open>(x, y)\<close>; \<open>eq_values\<close> is \<^verbatim>\<open>np.array(state)\<close>.
\<close>

definition calc_visit ::
  "cspai \<Rightarrow> int option grid \<Rightarrow> int \<Rightarrow> int \<Rightarrow> int \<times> int \<Rightarrow> (int \<times> int) list grid
     \<Rightarrow> (int \<times> int) list grid" where
  "calc_visit ai eq_values x y d eqs =
     (case d of (i, j) \<Rightarrow>
        if \<not> (i = 0 \<and> j = 0) then
          if 0 \<le> x + i \<and> x + i < ai_width ai \<and> 0 \<le> y + j \<and> y + j < ai_height ai then
            if gget eq_values (x + i) (y + j) = None
            then gset eqs x y (List.insert (x + i, y + j) (gget eqs x y))
            else eqs
          else eqs
        else eqs)"

definition calc_equations :: "cspai \<Rightarrow> int option grid \<Rightarrow> (int \<times> int) list grid" where
  "calc_equations ai eq_values =
     fold (\<lambda>p eqs. fold (calc_visit ai eq_values (fst p) (snd p)) offsets eqs)
       (exposed_squares ai) (new_grid (ai_width ai) (ai_height ai) [])"

text \<open>
  \<^verbatim>\<open>for x in range(self.width): for y in range(self.height)\<close> runs over \<open>ai_cells\<close>.
  \<open>truthy\<close> is the truth value Python gives an entry of \<^verbatim>\<open>eq_values\<close>. The pair
  \<^verbatim>\<open>eqs, eq_values\<close> that \<^verbatim>\<open>find_mine\<close> and \<^verbatim>\<open>find_safe\<close> take, change and return is an
  \<open>eq_state\<close>. \<open>fold_err\<close> is a loop whose body may raise.
\<close>

definition ai_cells :: "cspai \<Rightarrow> (int \<times> int) list" where
  "ai_cells ai = List.product [0..ai_width ai - 1] [0..ai_height ai - 1]"

definition truthy :: "int option \<Rightarrow> bool" where
  "truthy v = (case v of None \<Rightarrow> False | Some n \<Rightarrow> n \<noteq> 0)"

type_synonym eq_state = "(int \<times> int) list grid \<times> int option grid"

fun fold_err :: "('a \<Rightarrow> 's \<Rightarrow> ai_error + 's) \<Rightarrow> 'a list \<Rightarrow> 's \<Rightarrow> ai_error + 's" where
  "fold_err f [] s = Inr s"
| "fold_err f (x # xs) s = (case f x s of Inl e \<Rightarrow> Inl e | Inr s' \<Rightarrow> fold_err f xs s')"

text \<open>
  \<^verbatim>\<open>find_mine\<close>: \<open>mine_candidates\<close> is its first loop, which collects the set \<^verbatim>\<open>mines\<close>;
  \<open>remove_mine m c\<close> is the body of its second loop for the mine \<open>m\<close> and the cell \<open>c\<close>.
  \<^verbatim>\<open>find_safe\<close> has the same two loops, and its second one changes \<^verbatim>\<open>eqs\<close> only.
\<close>

definition mine_candidates :: "cspai \<Rightarrow> eq_state \<Rightarrow> (int \<times> int) list" where
  "mine_candidates ai s =
     (case s of (eqs, eq_values) \<Rightarrow>
        fold (\<lambda>c found.
               if truthy (gget eq_values (fst c) (snd c)) then
                 if gget eq_values (fst c) (snd c)
                    = Some (int (card (set (gget eqs (fst c) (snd c)))))
                 then fold List.insert (gget eqs (fst c) (snd c)) found
                 else found
               else found)
          (ai_cells ai) [])"

definition remove_mine :: "int \<times> int \<Rightarrow> int \<times> int \<Rightarrow> eq_state \<Rightarrow> ai_error + eq_state" where
  "remove_mine m c s =
     (case s of (eqs, eq_values) \<Rightarrow>
        if m \<in> set (gget eqs (fst c) (snd c)) then
          (case gget eq_values (fst c) (snd c) of
             None \<Rightarrow> Inl TypeError
           | Some v \<Rightarrow>
               Inr (gset eqs (fst c) (snd c) (removeAll m (gget eqs (fst c) (snd c))),
                    gset eq_values (fst c) (snd c) (Some (v - 1))))
        else Inr s)"

definition find_mine ::
  "cspai \<Rightarrow> eq_state \<Rightarrow> (int \<times> int) list \<Rightarrow> ai_error + (eq_state \<times> (int \<times> int) list)" where
  "find_mine ai s mines_old =
     (let found = mine_candidates ai s in
      case fold_err (\<lambda>m. fold_err (remove_mine m) (ai_cells ai)) found s of
        Inl e \<Rightarrow> Inl e
      | Inr s' \<Rightarrow> Inr (s', fold List.insert mines_old found))"

definition safe_candidates :: "cspai \<Rightarrow> eq_state \<Rightarrow> (int \<times> int) list" where
  "safe_candidates ai s =
     (case s of (eqs, eq_values) \<Rightarrow>
        fold (\<lambda>c found.
               if gget eq_values (fst c) (snd c) = Some 0
               then fold List.insert (gget eqs (fst c) (snd c)) found
               else found)
          (ai_cells ai) [])"

definition remove_safe :: "int \<times> int \<Rightarrow> int \<times> int \<Rightarrow> eq_state \<Rightarrow> eq_state" where
  "remove_safe p c s =
     (case s of (eqs, eq_values) \<Rightarrow>
        if p \<in> set (gget eqs (fst c) (snd c))
        then (gset eqs (fst c) (snd c) (removeAll p (gget eqs (fst c) (snd c))), eq_values)
        else s)"

definition find_safe :: "cspai \<Rightarrow> eq_state \<Rightarrow> (int \<times> int) list \<Rightarrow> eq_state \<times> (int \<times> int) list" where
  "find_safe ai s safe_old =
     (let found = safe_candidates ai s in
      (fold (\<lambda>p. fold (remove_safe p) (ai_cells ai)) found s, fold List.insert safe_old found))"

text \<open>
  \<^verbatim>\<open>find_safe_and_mine\<close>: the \<^verbatim>\<open>while True\<close> loop is \<open>fsm_loop\<close>, whose value is \<open>None\<close> when
  the loop does not end. \<open>fsm_passes n\<close> is the same loop stopped after \<open>n\<close> passes: its
  value is \<open>None\<close> when the loop has not ended within \<open>n\<close> passes.
\<close>

type_synonym solution = "(int \<times> int) list \<times> (int \<times> int) list"

partial_function (option) fsm_loop ::
  "cspai \<Rightarrow> eq_state \<Rightarrow> (int \<times> int) list \<Rightarrow> (int \<times> int) list \<Rightarrow> (ai_error + solution) option" where
  "fsm_loop ai s mines_old safe_old =
     (case find_mine ai s mines_old of
        Inl e \<Rightarrow> Some (Inl e)
      | Inr (s1, mines_new) \<Rightarrow>
          (case find_safe ai s1 safe_old of
             (s2, safe_new) \<Rightarrow>
               if set mines_new = set mines_old \<and> set safe_new = set safe_old
               then Some (Inr (mines_new, safe_new))
               else fsm_loop ai s2 mines_new safe_new))"

declare fsm_loop.simps [code]

definition find_safe_and_mine ::
  "cspai \<Rightarrow> (int \<times> int) list grid \<Rightarrow> int option grid \<Rightarrow> (ai_error + solution) option" where
  "find_safe_and_mine ai eqs eq_values = fsm_loop ai (eqs, eq_values) [] []"

fun fsm_passes ::
  "nat \<Rightarrow> cspai \<Rightarrow> eq_state \<Rightarrow> (int \<times> int) list \<Rightarrow> (int \<times> int) list \<Rightarrow> (ai_error + solution) option" where
  "fsm_passes 0 ai s mines_old safe_old = None"
| "fsm_passes (Suc n) ai s mines_old safe_old =
     (case find_mine ai s mines_old of
        Inl e \<Rightarrow> Some (Inl e)
      | Inr (s1, mines_new) \<Rightarrow>
          (case find_safe ai s1 safe_old of
             (s2, safe_new) \<Rightarrow>
               if set mines_new = set mines_old \<and> set safe_new = set safe_old
               then Some (Inr (mines_new, safe_new))
               else fsm_passes n ai s2 mines_new safe_new))"

section \<open>Reading the equations\<close>

text \<open>
  The notions the solver is reasoned about with. \<open>on_board\<close>: a coordinate of the solver's
  board. \<open>eq_set s c\<close> and \<open>eq_val s c\<close>: the set \<^verbatim>\<open>eqs[c]\<close> and the value
  \<^verbatim>\<open>eq_values[c]\<close>. \<open>eq_shape\<close>: both arrays have the solver's shape. \<open>keyed\<close>: a cell with
  a non-empty equation has a value (it is an exposed cell). \<open>eq_union\<close>: all coordinates that
  occur in some equation. \<open>sound_for ai M s\<close>: every non-empty equation's value is the number
  of its coordinates that lie in \<open>M\<close>.
\<close>

definition on_board :: "cspai \<Rightarrow> int \<times> int \<Rightarrow> bool" where
  "on_board ai c = (0 \<le> fst c \<and> fst c < ai_width ai \<and> 0 \<le> snd c \<and> snd c < ai_height ai)"

definition eq_set :: "eq_state \<Rightarrow> int \<times> int \<Rightarrow> (int \<times> int) set" where
  "eq_set s c = set (gget (fst s) (fst c) (snd c))"

definition eq_val :: "eq_state \<Rightarrow> int \<times> int \<Rightarrow> int option" where
  "eq_val s c = gget (snd s) (fst c) (snd c)"

definition eq_shape :: "cspai \<Rightarrow> eq_state \<Rightarrow> bool" where
  "eq_shape ai s =
     (shape (ai_width ai) (ai_height ai) (fst s) \<and> shape (ai_width ai) (ai_height ai) (snd s))"

definition keyed :: "cspai \<Rightarrow> eq_state \<Rightarrow> bool" where
  "keyed ai s = (\<forall>c. on_board ai c \<longrightarrow> eq_set s c \<noteq> {} \<longrightarrow> eq_val s c \<noteq> None)"

definition eq_union :: "cspai \<Rightarrow> eq_state \<Rightarrow> (int \<times> int) set" where
  "eq_union ai s = (\<Union>c\<in>{c. on_board ai c}. eq_set s c)"

definition sound_for :: "cspai \<Rightarrow> (int \<times> int) set \<Rightarrow> eq_state \<Rightarrow> bool" where
  "sound_for ai M s =
     (\<forall>c. on_board ai c \<longrightarrow> eq_set s c \<noteq> {} \<longrightarrow>
          eq_val s c = Some (int (card (eq_set s c \<inter> M))))"

section \<open>The scenario board\<close>

text \<open>
  The board of the concrete scenario: 3 by 3, one mine, at \<open>(2, 2)\<close>. \<open>board3\<close> is the
  game the constructor builds from it (lemma \<open>game_init_board3\<close>).
\<close>

definition config3 :: game_config where
  "config3 = \<lparr>cfg_width = 3, cfg_height = 3, cfg_num_mines = 1\<rparr>"

definition layout3 :: "bool grid" where
  "layout3 = [[False, False, False], [False, False, False], [False, False, True]]"

definition board3 :: game where
  "board3 =
     \<lparr>width = 3, height = 3, num_mines = 1, num_moves = 0, num_exposed_squares = 0,
      explosion = False, quit_flag = False, num_safe_squares = 8,
      exposed = [[False, False, False], [False, False, False], [False, False, False]],
      counts = [[0, 0, 0], [0, 1, 1], [0, 1, 0]],
      mines = layout3\<rparr>"

text \<open>
  \<open>board3_after\<close> is the scenario board after \<^verbatim>\<open>select(0, 0)\<close>. \<open>board2\<close> is the board of
  width 2 and height 1 with its mine at \<open>(0, 0)\<close>; \<open>board2_lost\<close> is that board after the mine
  has been selected, \<open>board2_won\<close> after the other cell has been selected, and
  \<open>board2_won_lost\<close> after the mine has been selected on \<open>board2_won\<close>.
\<close>

definition board3_after :: game where
  "board3_after =
     board3\<lparr>num_moves := 1, num_exposed_squares := 8,
            exposed := [[True, True, True], [True, True, True], [True, True, False]]\<rparr>"

definition board2 :: game where
  "board2 =
     \<lparr>width = 2, height = 1, num_mines = 1, num_moves = 0, num_exposed_squares = 0,
      explosion = False, quit_flag = False, num_safe_squares = 1,
      exposed = [[False], [False]],
      counts = [[0], [1]],
      mines = [[True], [False]]\<rparr>"

definition board2_lost :: game where
  "board2_lost =
     board2\<lparr>num_moves := 1, num_exposed_squares := 1, explosion := True,
            exposed := [[True], [False]]\<rparr>"

definition board2_won :: game where
  "board2_won = board2\<lparr>num_moves := 1, num_exposed_squares := 1, exposed := [[False], [True]]\<rparr>"

definition board2_won_lost :: game where
  "board2_won_lost =
     board2\<lparr>num_moves := 2, num_exposed_squares := 2, explosion := True,
            exposed := [[True], [True]]\<rparr>"

section \<open>The region-growing loop: measure and invariant\<close>

text \<open>
  The notions used to reason about the \<^verbatim>\<open>while\<close> loop of \<^verbatim>\<open>_update\<close>: the coordinate
  of a \<^verbatim>\<open>Square\<close>, the cells still unexposed (the loop's measure), 8-adjacency and
  connectedness of a set of cells, and the loop invariant. In \<open>flood_inv gb start pend s\<close>,
  \<open>gb\<close> is the game when \<^verbatim>\<open>_update\<close> is entered, \<open>start\<close> is the selected cell and
  \<open>pend\<close> holds the popped cell while its neighbours are being visited.
\<close>

definition coord :: "square \<Rightarrow> int \<times> int" where
  "coord s = (sq_x s, sq_y s)"

definition unexposed_cells :: "game \<Rightarrow> (int \<times> int) list" where
  "unexposed_cells g = filter (\<lambda>c. \<not> is_exposed g c) (cells g)"

definition flood_measure :: "flood_state \<Rightarrow> nat" where
  "flood_measure s = (case s of (g, stack, squares) \<Rightarrow> 2 * length (unexposed_cells g) + length stack)"

definition adjacent :: "int \<times> int \<Rightarrow> int \<times> int \<Rightarrow> bool" where
  "adjacent a b = (a \<noteq> b \<and> \<bar>fst a - fst b\<bar> \<le> 1 \<and> \<bar>snd a - snd b\<bar> \<le> 1)"

definition adj_on :: "(int \<times> int) set \<Rightarrow> ((int \<times> int) \<times> (int \<times> int)) set" where
  "adj_on S = {(a, b). a \<in> S \<and> b \<in> S \<and> adjacent a b}"

definition connected_region :: "(int \<times> int) set \<Rightarrow> bool" where
  "connected_region S = (\<forall>a\<in>S. \<forall>b\<in>S. (a, b) \<in> (adj_on S)\<^sup>*)"

definition same_board :: "game \<Rightarrow> game \<Rightarrow> bool" where
  "same_board gb g =
     (width g = width gb \<and> height g = height gb \<and> num_mines g = num_mines gb \<and>
      num_moves g = num_moves gb \<and> explosion g = explosion gb \<and> quit_flag g = quit_flag gb \<and>
      num_safe_squares g = num_safe_squares gb \<and> counts g = counts gb \<and> mines g = mines gb)"

definition flood_inv :: "game \<Rightarrow> int \<times> int \<Rightarrow> (int \<times> int) set \<Rightarrow> flood_state \<Rightarrow> bool" where
  "flood_inv gb start pend s =
     (case s of (g, stack, squares) \<Rightarrow>
        wf_game g \<and> same_board gb g \<and>
        num_exposed_squares g = num_exposed_squares gb + int (length squares) \<and>
        distinct (map coord squares) \<and>
        (\<forall>c. in_board gb c \<longrightarrow> is_exposed g c = (is_exposed gb c \<or> c \<in> coord ` set squares)) \<and>
        (\<forall>q\<in>set squares. in_board gb (coord q) \<and> \<not> is_exposed gb (coord q) \<and>
                         sq_num_mines q = count_at gb (coord q)) \<and>
        (\<forall>c\<in>set stack. c \<in> coord ` set squares \<and> count_at gb c = 0) \<and>
        (\<forall>q\<in>set squares. (start, coord q) \<in> (adj_on (coord ` set squares))\<^sup>*) \<and>
        (\<forall>q\<in>set squares. count_at gb (coord q) = 0 \<longrightarrow>
            coord q \<in> set stack \<or> coord q \<in> pend \<or>
            (\<forall>n\<in>set (neighbours gb (coord q)). is_exposed g n)) \<and>
        pend \<subseteq> coord ` set squares \<and>
        start \<in> coord ` set squares \<and>
        (\<forall>q\<in>set squares. coord q = start \<or>
            (\<exists>p\<in>coord ` set squares. count_at gb p = 0 \<and> adjacent p (coord q))))"

text \<open>
  A selection that returns leaves the popped-cell slot of the invariant filled exactly when
  no region growing took place (a mine or a non-zero count was selected).
\<close>

definition move_pend :: "game \<Rightarrow> int \<times> int \<Rightarrow> (int \<times> int) set" where
  "move_pend g c = (if is_mine g c \<or> count_at g c \<noteq> 0 then {c} else {})"

text \<open>
  What a selection that returns has done: \<open>g\<close> is the game before, \<open>squares\<close> the list
  \<^verbatim>\<open>_update\<close> returned and \<open>g'\<close> the game after.
\<close>

definition move_post :: "game \<Rightarrow> int \<Rightarrow> int \<Rightarrow> square list \<Rightarrow> game \<Rightarrow> bool" where
  "move_post g x y squares g' =
     (wf_game g' \<and>
      width g' = width g \<and> height g' = height g \<and> num_mines g' = num_mines g \<and>
      num_safe_squares g' = num_safe_squares g \<and> counts g' = counts g \<and> mines g' = mines g \<and>
      quit_flag g' = quit_flag g \<and> num_moves g' = num_moves g + 1 \<and>
      explosion g' = is_mine g (x, y) \<and>
      num_exposed_squares g' = num_exposed_squares g + int (length squares) \<and>
      distinct (map coord squares) \<and>
      (\<forall>c. in_board g c \<longrightarrow> is_exposed g' c = (is_exposed g c \<or> c \<in> coord ` set squares)) \<and>
      (\<forall>q\<in>set squares. in_board g (coord q) \<and> \<not> is_exposed g (coord q) \<and>
                       sq_num_mines q = count_at g (coord q)) \<and>
      (\<forall>q\<in>set squares. ((x, y), coord q) \<in> (adj_on (coord ` set squares))\<^sup>*) \<and>
      (\<forall>q\<in>set squares. count_at g (coord q) = 0 \<longrightarrow> coord q \<in> move_pend g (x, y) \<or>
          (\<forall>n\<in>set (neighbours g (coord q)). is_exposed g' n)) \<and>
      (x, y) \<in> coord ` set squares \<and>
      (\<forall>q\<in>set squares. coord q = (x, y) \<or>
          (\<exists>p\<in>coord ` set squares. count_at g p = 0 \<and> adjacent p (coord q))) \<and>
      (is_mine g (x, y) \<or> count_at g (x, y) \<noteq> 0 \<longrightarrow> squares = [Square x y (count_at g (x, y))]))"


section \<open>The equations of a board\<close>

text \<open>
  \<open>unknown_neighbours ai eq_values c\<close>: the neighbours of \<open>c\<close> on the solver's board whose
  entry of \<^verbatim>\<open>eq_values\<close> is \<^verbatim>\<open>None\<close>. \<open>visit_adds\<close>: what the two inner loops of
  \<^verbatim>\<open>calc_equations\<close> add to the equation of \<open>p\<close> for the offsets \<open>ds\<close>. \<open>eq_system\<close>: a pair
  \<^verbatim>\<open>eqs, eq_values\<close> as \<^verbatim>\<open>calc_equations\<close> builds it: both arrays have the solver's shape,
  a cell with a non-empty equation has a value, and an equation holds coordinates of the
  board whose value is \<^verbatim>\<open>None\<close>. \<open>tracks ai g\<close>: the solver has the dimensions of the game
  \<open>g\<close> and its \<^verbatim>\<open>exposed_squares\<close> are the exposed cells of \<open>g\<close>.
\<close>

definition unknown_neighbours :: "cspai \<Rightarrow> int option grid \<Rightarrow> int \<times> int \<Rightarrow> (int \<times> int) set" where
  "unknown_neighbours ai eq_values c =
     {n. on_board ai n \<and> adjacent c n \<and> gget eq_values (fst n) (snd n) = None}"

definition visit_adds :: "cspai \<Rightarrow> int option grid \<Rightarrow> int \<times> int \<Rightarrow> (int \<times> int) list \<Rightarrow> (int \<times> int) set" where
  "visit_adds ai eq_values p ds =
     {n. \<exists>d\<in>set ds. d \<noteq> (0, 0) \<and> n = (fst p + fst d, snd p + snd d) \<and> on_board ai n \<and>
                     gget eq_values (fst n) (snd n) = None}"

definition eq_system :: "cspai \<Rightarrow> eq_state \<Rightarrow> bool" where
  "eq_system ai s =
     (eq_shape ai s \<and> keyed ai s \<and>
      (\<forall>c u. on_board ai c \<longrightarrow> u \<in> eq_set s c \<longrightarrow> on_board ai u \<and> eq_val s u = None))"

definition tracks :: "cspai \<Rightarrow> game \<Rightarrow> bool" where
  "tracks ai g =
     (ai_width ai = width g \<and> ai_height ai = height g \<and>
      set (exposed_squares ai) = set (exposed_cells g))"


section \<open>The passes of the solver's loop\<close>

text \<open>
  \<open>fsm_trace n\<close> lists the values of \<^verbatim>\<open>mines\<close> and \<^verbatim>\<open>safe\<close> at the end of each of the
  first \<open>n\<close> passes of the loop of \<^verbatim>\<open>find_safe_and_mine\<close>; the list ends with the pass that
  takes the \<^verbatim>\<open>break\<close>. \<open>growing\<close>: in a list of such pairs, each pair's two sets are
  contained in those of the next pair.
\<close>

fun fsm_trace ::
  "nat \<Rightarrow> cspai \<Rightarrow> eq_state \<Rightarrow> (int \<times> int) list \<Rightarrow> (int \<times> int) list \<Rightarrow> solution list" where
  "fsm_trace 0 ai s mines_old safe_old = []"
| "fsm_trace (Suc n) ai s mines_old safe_old =
     (case find_mine ai s mines_old of
        Inl e \<Rightarrow> []
      | Inr (s1, mines_new) \<Rightarrow>
          (case find_safe ai s1 safe_old of
             (s2, safe_new) \<Rightarrow>
               (mines_new, safe_new) #
               (if set mines_new = set mines_old \<and> set safe_new = set safe_old
                then []
                else fsm_trace n ai s2 mines_new safe_new)))"

fun growing :: "solution list \<Rightarrow> bool" where
  "growing (a # b # tr) =
     (set (fst a) \<subseteq> set (fst b) \<and> set (snd a) \<subseteq> set (snd b) \<and> growing (b # tr))"
| "growing tr = True"

section \<open>Two boards for the solver\<close>

text \<open>
  \<open>board31\<close> is the board of width 3 and height 1 with its mine at \<open>(0, 0)\<close>, after
  \<^verbatim>\<open>select(1, 0)\<close> and \<^verbatim>\<open>select(0, 0)\<close>: the mine has been exposed. \<open>board51\<close> is the board
  of width 5 and height 1 with mines at \<open>(0, 0)\<close> and \<open>(2, 0)\<close>, after \<^verbatim>\<open>select(1, 0)\<close> and
  \<^verbatim>\<open>select(3, 0)\<close>. \<open>ai31\<close> and \<open>ai51\<close> are the solver after \<^verbatim>\<open>reset\<close> and the two calls of
  \<^verbatim>\<open>update\<close> on those boards (lemmas \<open>play_board31\<close> and \<open>play_board51\<close>).
\<close>

definition config31 :: game_config where
  "config31 = \<lparr>cfg_width = 3, cfg_height = 1, cfg_num_mines = 1\<rparr>"

definition board31 :: game where
  "board31 =
     \<lparr>width = 3, height = 1, num_mines = 1, num_moves = 2, num_exposed_squares = 2,
      explosion = True, quit_flag = False, num_safe_squares = 2,
      exposed = [[True], [True], [False]], counts = [[0], [1], [0]],
      mines = [[True], [False], [False]]\<rparr>"

definition ai31 :: cspai where
  "ai31 = \<lparr>ai_width = 3, ai_height = 1, exposed_squares = [(0, 0), (1, 0)], ai_flags = []\<rparr>"

definition config51 :: game_config where
  "config51 = \<lparr>cfg_width = 5, cfg_height = 1, cfg_num_mines = 2\<rparr>"

definition board51 :: game where
  "board51 =
     \<lparr>width = 5, height = 1, num_mines = 2, num_moves = 2, num_exposed_squares = 2,
      explosion = False, quit_flag = False, num_safe_squares = 3,
      exposed = [[False], [True], [False], [True], [False]],
      counts = [[0], [2], [0], [1], [0]],
      mines = [[True], [False], [True], [False], [False]]\<rparr>"

definition ai51 :: cspai where
  "ai51 = \<lparr>ai_width = 5, ai_height = 1, exposed_squares = [(3, 0), (1, 0)], ai_flags = []\<rparr>"

section \<open>Evaluating the scenario\<close>

lemma game_init_board3: "game_init config3 (Some layout3) [] = Some board3"
  by code_simp

lemma select_board3_outside: "select board3 (- 1) 0 = Some (Inl OutsideBoard, board3)"
  by code_simp

lemma game_inv_board3: "game_inv board3"
  by code_simp

lemma select_board3_origin:
  "select board3 0 0 =
     Some (Inr (MoveResult VICTORY
                 {Square 0 0 0, Square 0 1 0, Square 0 2 0, Square 1 0 0, Square 2 0 0,
                  Square 1 1 1, Square 1 2 1, Square 2 1 1}),
           board3\<lparr>num_moves := 1, num_exposed_squares := 8,
                  exposed := [[True, True, True], [True, True, True], [True, True, False]]\<rparr>)"
  by code_simp

lemma board3_origin_facts: "\<not> is_mine board3 (0, 0) \<and> count_at board3 (0, 0) = 0"
  by code_simp

lemma game_init_board2:
  "game_init \<lparr>cfg_width = 2, cfg_height = 1, cfg_num_mines = 1\<rparr> (Some [[True], [False]]) []
     = Some board2"
  by code_simp

lemma game_inv_board2: "game_inv board2"
  by code_simp

lemma select_board3_after:
  "select board3 0 0 =
     Some (Inr (MoveResult VICTORY
                 {Square 0 0 0, Square 0 1 0, Square 0 2 0, Square 1 0 0, Square 2 0 0,
                  Square 1 1 1, Square 1 2 1, Square 2 1 1}), board3_after)"
  by code_simp

lemma board3_after_facts:
  "exposed_cells board3_after = [(0, 0), (0, 1), (0, 2), (1, 0), (1, 1), (1, 2), (2, 0), (2, 1)] \<and>
   \<not> is_exposed board3_after (2, 2) \<and> is_exposed board3_after (2, 1) \<and>
   is_exposed board3_after (1, 2) \<and> num_exposed_squares board3_after = 8 \<and>
   status board3_after = VICTORY"
  by code_simp

lemma select_board2_mine:
  "select board2 0 0 = Some (Inr (MoveResult DEFEAT {Square 0 0 0}), board2_lost)"
  by code_simp

lemma select_board2_safe:
  "select board2 1 0 = Some (Inr (MoveResult VICTORY {Square 1 0 1}), board2_won)"
  by code_simp

lemma select_board2_won_mine:
  "select board2_won 0 0 = Some (Inr (MoveResult DEFEAT {Square 0 0 0}), board2_won_lost)"
  by code_simp

lemma board2_facts:
  "status board2 = PLAYING \<and> in_board board2 (0, 0) \<and> is_mine board2 (0, 0) \<and>
   num_exposed_squares board2_lost = width board2 * height board2 - num_mines board2 \<and>
   status board2_lost = DEFEAT \<and> status board2_won = VICTORY \<and>
   exposed board2_won_lost \<noteq> exposed board2_won \<and>
   num_moves board2_won_lost \<noteq> num_moves board2_won"
  by code_simp

section \<open>Grids and the cells of the board\<close>

lemma shape_gset: "shape w h g \<Longrightarrow> shape w h (gset g x y v)"
proof -
  assume sh: "shape w h g"
  show ?thesis
  proof (cases "nat x < length g")
    case True
    have "length ((g ! nat x)[nat y := v]) = nat h"
      using sh True by (simp add: shape_def list_all_length)
    then show ?thesis
      using sh True by (auto simp: shape_def gset_def list_all_length nth_list_update)
  next
    case False
    then have "g[nat x := (g ! nat x)[nat y := v]] = g" by (simp add: list_update_beyond)
    then show ?thesis using sh by (simp add: gset_def)
  qed
qed

lemma shape_new_grid: "shape w h (new_grid w h v)"
  by (simp add: shape_def new_grid_def list_all_length)

lemma gget_new_grid: "0 \<le> x \<Longrightarrow> x < w \<Longrightarrow> 0 \<le> y \<Longrightarrow> y < h \<Longrightarrow> gget (new_grid w h v) x y = v"
  by (simp add: gget_def new_grid_def)

lemma gget_gset:
  assumes "shape w h g" "0 \<le> x" "x < w" "0 \<le> y" "y < h" "0 \<le> x'" "0 \<le> y'"
  shows "gget (gset g x y v) x' y' = (if x' = x \<and> y' = y then v else gget g x' y')"
proof -
  have lx: "nat x < length g" using assms by (simp add: shape_def)
  have ly: "nat y < length (g ! nat x)" using assms lx by (simp add: shape_def list_all_length)
  have ex: "nat x' = nat x \<longleftrightarrow> x' = x" using assms by auto
  have ey: "nat y' = nat y \<longleftrightarrow> y' = y" using assms by auto
  show ?thesis
    using lx ly ex ey by (auto simp: gget_def gset_def nth_list_update)
qed

lemma set_cells: "set (cells g) = {c. in_board g c}"
  by (auto simp: cells_def in_board_def)

lemma distinct_cells: "distinct (cells g)"
  by (simp add: cells_def distinct_product)

lemma outside_iff: "is_outside_board g x y \<longleftrightarrow> \<not> in_board g (x, y)"
  by (auto simp: is_outside_board_def in_board_def)

lemma length_filter_cells: "length (filter P (cells g)) = card {c. in_board g c \<and> P c}"
proof -
  have "length (filter P (cells g)) = card (set (filter P (cells g)))"
    using distinct_card [of "filter P (cells g)"] distinct_cells [of g] by simp
  also have "set (filter P (cells g)) = {c. in_board g c \<and> P c}"
    by (auto simp: set_cells)
  finally show ?thesis .
qed

lemma finite_board: "finite {c. in_board g c}"
  using finite_set [of "cells g"] by (simp only: set_cells)

section \<open>The region-growing loop terminates and keeps its invariant\<close>

lemma expose_fields [simp]:
  "width (expose_square g a b) = width g"
  "height (expose_square g a b) = height g"
  "num_mines (expose_square g a b) = num_mines g"
  "num_moves (expose_square g a b) = num_moves g"
  "explosion (expose_square g a b) = explosion g"
  "quit_flag (expose_square g a b) = quit_flag g"
  "num_safe_squares (expose_square g a b) = num_safe_squares g"
  "counts (expose_square g a b) = counts g"
  "mines (expose_square g a b) = mines g"
  "num_exposed_squares (expose_square g a b) = num_exposed_squares g + 1"
  by (simp_all add: expose_square_def)

lemma expose_derived [simp]:
  "in_board (expose_square g a b) c = in_board g c"
  "cells (expose_square g a b) = cells g"
  "is_mine (expose_square g a b) c = is_mine g c"
  "count_at (expose_square g a b) c = count_at g c"
  "neighbours (expose_square g a b) c = neighbours g c"
  "neighbour_mines (expose_square g a b) c = neighbour_mines g c"
  "mine_cells (expose_square g a b) = mine_cells g"
  by (simp_all add: in_board_def cells_def is_mine_def count_at_def neighbours_def
      neighbour_mines_def mine_cells_def cong: filter_cong)

lemma wf_expose: "wf_game g \<Longrightarrow> wf_game (expose_square g a b)"
  by (simp add: wf_game_def expose_square_def shape_gset)

lemma is_exposed_expose:
  assumes "wf_game g" "in_board g (a, b)" "in_board g c"
  shows "is_exposed (expose_square g a b) c = (c = (a, b) \<or> is_exposed g c)"
proof -
  have "gget (gset (exposed g) a b True) (fst c) (snd c)
        = (if fst c = a \<and> snd c = b then True else gget (exposed g) (fst c) (snd c))"
    using assms by (intro gget_gset [of "width g" "height g"]) (simp_all add: wf_game_def in_board_def)
  then show ?thesis
    by (cases c) (auto simp: is_exposed_def expose_square_def)
qed

lemma unexposed_expose:
  assumes "wf_game g" "in_board g (a, b)" "\<not> is_exposed g (a, b)"
  shows "Suc (length (unexposed_cells (expose_square g a b))) = length (unexposed_cells g)"
proof -
  let ?U = "{c. in_board g c \<and> \<not> is_exposed g c}"
  have "{c. in_board g c \<and> \<not> is_exposed (expose_square g a b) c} = ?U - {(a, b)}"
    using assms by (auto simp: is_exposed_expose)
  moreover have "finite ?U" using finite_board [of g] by simp
  moreover have "(a, b) \<in> ?U" using assms by simp
  ultimately have "Suc (card {c. in_board g c \<and> \<not> is_exposed (expose_square g a b) c}) = card ?U"
    using card_Suc_Diff1 [of ?U "(a, b)"] by simp
  then show ?thesis
    by (simp add: unexposed_cells_def length_filter_cells)
qed

lemma exposed_expose:
  assumes "wf_game g" "in_board g (a, b)" "\<not> is_exposed g (a, b)"
  shows "length (exposed_cells (expose_square g a b)) = Suc (length (exposed_cells g))"
proof -
  let ?E = "{c. in_board g c \<and> is_exposed g c}"
  have "{c. in_board g c \<and> is_exposed (expose_square g a b) c} = insert (a, b) ?E"
    using assms by (auto simp: is_exposed_expose)
  moreover have "finite ?E" using finite_board [of g] by simp
  moreover have "(a, b) \<notin> ?E" using assms by simp
  ultimately have "card {c. in_board g c \<and> is_exposed (expose_square g a b) c} = Suc (card ?E)"
    by simp
  then show ?thesis
    by (simp add: exposed_cells_def length_filter_cells)
qed

text \<open>What one visit of a neighbour does.\<close>

lemma flood_visit_eq:
  "flood_visit x y d (g, stack, squares) =
     (let n = (x + fst d, y + snd d) in
      if d = (0, 0) \<or> \<not> in_board g n \<or> is_exposed g n then (g, stack, squares)
      else (expose_square g (fst n) (snd n),
            (if count_at g n = 0 then n # stack else stack),
            squares @ [Square (fst n) (snd n) (count_at g n)]))"
  by (cases d)
     (auto simp: flood_visit_def Let_def outside_iff is_exposed_def test_if_count_0_def count_at_def)

lemma flood_visit_measure:
  assumes "wf_game g" "flood_visit x y d (g, stack, squares) = (g', stack', squares')"
  shows "wf_game g' \<and> flood_measure (g', stack', squares') \<le> flood_measure (g, stack, squares)"
proof -
  let ?n = "(x + fst d, y + snd d)"
  show ?thesis
  proof (cases "d = (0, 0) \<or> \<not> in_board g ?n \<or> is_exposed g ?n")
    case True
    then show ?thesis using assms by (simp add: flood_visit_eq)
  next
    case False
    then have g': "g' = expose_square g (fst ?n) (snd ?n)"
      and st: "length stack' \<le> Suc (length stack)"
      using assms(2) by (auto simp: flood_visit_eq Let_def split: if_splits)
    have "Suc (length (unexposed_cells g')) = length (unexposed_cells g)"
      unfolding g' using False assms(1) by (intro unexposed_expose) simp_all
    then show ?thesis using st assms(1) g' by (simp add: flood_measure_def wf_expose)
  qed
qed

lemma fold_visit_measure:
  assumes "wf_game (fst s)"
  shows "wf_game (fst (fold (flood_visit x y) ds s)) \<and>
         flood_measure (fold (flood_visit x y) ds s) \<le> flood_measure s"
  using assms
proof (induction ds arbitrary: s)
  case Nil
  then show ?case by simp
next
  case (Cons d ds)
  obtain g stack squares where s: "s = (g, stack, squares)" by (cases s)
  obtain g' stack' squares' where v: "flood_visit x y d (g, stack, squares) = (g', stack', squares')"
    by (cases "flood_visit x y d (g, stack, squares)")
  from Cons.prems s have "wf_game g" by simp
  from flood_visit_measure [OF this v]
  have w: "wf_game g'" and m: "flood_measure (g', stack', squares') \<le> flood_measure s"
    by (simp_all add: s)
  from Cons.IH [of "(g', stack', squares')"] w
  have "wf_game (fst (fold (flood_visit x y) ds (g', stack', squares')))"
    and "flood_measure (fold (flood_visit x y) ds (g', stack', squares')) \<le> flood_measure (g', stack', squares')"
    by simp_all
  with m show ?case by (simp add: s v)
qed

lemma flood_step_measure:
  assumes "wf_game g" "stack \<noteq> []"
  shows "wf_game (fst (flood_step (g, stack, squares))) \<and>
         flood_measure (flood_step (g, stack, squares)) < flood_measure (g, stack, squares)"
proof -
  obtain p rest where st: "stack = p # rest" using assms(2) by (cases stack) auto
  have "flood_measure (g, rest, squares) < flood_measure (g, stack, squares)"
    by (simp add: flood_measure_def st)
  moreover from fold_visit_measure [of "(g, rest, squares)" "fst p" "snd p" offsets] assms(1)
  have "wf_game (fst (fold (flood_visit (fst p) (snd p)) offsets (g, rest, squares)))"
    and "flood_measure (fold (flood_visit (fst p) (snd p)) offsets (g, rest, squares))
         \<le> flood_measure (g, rest, squares)" by simp_all
  ultimately show ?thesis by (simp add: flood_step_def st)
qed

lemma flood_terminates:
  assumes "wf_game g"
  shows "\<exists>t. flood (g, stack, squares) = Some t"
  unfolding flood_def
proof (rule measure_while_option_Some [where P = "\<lambda>s. wf_game (fst s)" and f = flood_measure])
  show "wf_game (fst (g, stack, squares))" using assms by simp
next
  fix s :: flood_state
  assume a: "wf_game (fst s)" and b: "case s of (g, stack, squares) \<Rightarrow> stack \<noteq> []"
  obtain g stack squares where s: "s = (g, stack, squares)" by (cases s)
  from a b s flood_step_measure [of g stack squares]
  show "wf_game (fst (flood_step s)) \<and> flood_measure (flood_step s) < flood_measure s"
    by simp
qed


lemma same_board_expose: "same_board gb g \<Longrightarrow> same_board gb (expose_square g a b)"
  by (simp add: same_board_def)

lemma same_board_derived:
  assumes "same_board gb g"
  shows "in_board g c = in_board gb c" "count_at g c = count_at gb c"
    "is_mine g c = is_mine gb c" "cells g = cells gb" "neighbours g c = neighbours gb c"
  using assms
  by (simp_all add: same_board_def in_board_def count_at_def is_mine_def cells_def neighbours_def
      cong: filter_cong)

lemma abs_le_1_iff: "\<bar>k::int\<bar> \<le> 1 \<longleftrightarrow> k = -1 \<or> k = 0 \<or> k = 1"
  by arith

lemma set_offsets: "d \<in> set offsets \<longleftrightarrow> \<bar>fst d\<bar> \<le> 1 \<and> \<bar>snd d\<bar> \<le> 1"
proof -
  have "set offsets = {-1, 0, 1} \<times> {-1, 0, 1}" by (simp add: offsets_def)
  then have "d \<in> set offsets \<longleftrightarrow> fst d \<in> {-1, 0, 1} \<and> snd d \<in> {-1, 0, 1}"
    by (simp only: mem_Times_iff)
  then show ?thesis by (simp add: abs_le_1_iff)
qed

lemma adjacent_offset:
  "adjacent c n \<longleftrightarrow> (\<exists>d\<in>set offsets. d \<noteq> (0, 0) \<and> n = (fst c + fst d, snd c + snd d))"
proof
  assume a: "adjacent c n"
  let ?d = "(fst n - fst c, snd n - snd c)"
  have "\<bar>fst c - fst n\<bar> = \<bar>fst n - fst c\<bar>" "\<bar>snd c - snd n\<bar> = \<bar>snd n - snd c\<bar>" by arith+
  then have "?d \<in> set offsets" using a by (simp add: set_offsets adjacent_def)
  moreover have "?d \<noteq> (0, 0)" using a by (simp add: adjacent_def prod_eq_iff) arith
  moreover have "n = (fst c + fst ?d, snd c + snd ?d)" by simp
  ultimately show "\<exists>d\<in>set offsets. d \<noteq> (0, 0) \<and> n = (fst c + fst d, snd c + snd d)" by blast
next
  assume "\<exists>d\<in>set offsets. d \<noteq> (0, 0) \<and> n = (fst c + fst d, snd c + snd d)"
  then obtain d where d: "d \<in> set offsets" "d \<noteq> (0, 0)" "n = (fst c + fst d, snd c + snd d)"
    by blast
  from d(1) have b: "\<bar>fst d\<bar> \<le> 1" "\<bar>snd d\<bar> \<le> 1" by (simp_all add: set_offsets)
  from d(2) have "fst d \<noteq> 0 \<or> snd d \<noteq> 0" by (simp add: prod_eq_iff)
  then have "c \<noteq> n" using d(3) by (auto simp: prod_eq_iff)
  moreover have "\<bar>fst c - fst n\<bar> = \<bar>fst d\<bar>" "\<bar>snd c - snd n\<bar> = \<bar>snd d\<bar>" using d(3) by simp_all
  ultimately show "adjacent c n" using b by (simp add: adjacent_def)
qed

lemma set_neighbours: "n \<in> set (neighbours g c) \<longleftrightarrow> in_board g n \<and> adjacent c n"
  unfolding neighbours_def adjacent_offset by auto

lemma adjacent_sym: "adjacent a b \<Longrightarrow> adjacent b a"
  unfolding adjacent_def by (elim conjE, intro conjI) (auto simp only: abs_minus_commute)

lemma adj_on_mono: "S \<subseteq> T \<Longrightarrow> adj_on S \<subseteq> adj_on T"
  by (auto simp: adj_on_def)

lemma adj_on_rtrancl_mono: "S \<subseteq> T \<Longrightarrow> (a, b) \<in> (adj_on S)\<^sup>* \<Longrightarrow> (a, b) \<in> (adj_on T)\<^sup>*"
  using rtrancl_mono [OF adj_on_mono] by blast

lemma flood_invD:
  assumes "flood_inv gb start pend (g, stack, squares)"
  shows "wf_game g" "same_board gb g"
    "num_exposed_squares g = num_exposed_squares gb + int (length squares)"
    "distinct (map coord squares)"
    "\<forall>c. in_board gb c \<longrightarrow> is_exposed g c = (is_exposed gb c \<or> c \<in> coord ` set squares)"
    "\<forall>q\<in>set squares. in_board gb (coord q) \<and> \<not> is_exposed gb (coord q) \<and>
                         sq_num_mines q = count_at gb (coord q)"
    "\<forall>c\<in>set stack. c \<in> coord ` set squares \<and> count_at gb c = 0"
    "\<forall>q\<in>set squares. (start, coord q) \<in> (adj_on (coord ` set squares))\<^sup>*"
    "\<forall>q\<in>set squares. count_at gb (coord q) = 0 \<longrightarrow>
            coord q \<in> set stack \<or> coord q \<in> pend \<or>
            (\<forall>n\<in>set (neighbours gb (coord q)). is_exposed g n)"
    "pend \<subseteq> coord ` set squares"
    "start \<in> coord ` set squares"
    "\<forall>q\<in>set squares. coord q = start \<or>
            (\<exists>p\<in>coord ` set squares. count_at gb p = 0 \<and> adjacent p (coord q))"
  using assms unfolding flood_inv_def prod.case by simp_all

lemma flood_invI:
  assumes "wf_game g" "same_board gb g"
    "num_exposed_squares g = num_exposed_squares gb + int (length squares)"
    "distinct (map coord squares)"
    "\<forall>c. in_board gb c \<longrightarrow> is_exposed g c = (is_exposed gb c \<or> c \<in> coord ` set squares)"
    "\<forall>q\<in>set squares. in_board gb (coord q) \<and> \<not> is_exposed gb (coord q) \<and>
                         sq_num_mines q = count_at gb (coord q)"
    "\<forall>c\<in>set stack. c \<in> coord ` set squares \<and> count_at gb c = 0"
    "\<forall>q\<in>set squares. (start, coord q) \<in> (adj_on (coord ` set squares))\<^sup>*"
    "\<forall>q\<in>set squares. count_at gb (coord q) = 0 \<longrightarrow>
            coord q \<in> set stack \<or> coord q \<in> pend \<or>
            (\<forall>n\<in>set (neighbours gb (coord q)). is_exposed g n)"
    "pend \<subseteq> coord ` set squares"
    "start \<in> coord ` set squares"
    "\<forall>q\<in>set squares. coord q = start \<or>
            (\<exists>p\<in>coord ` set squares. count_at gb p = 0 \<and> adjacent p (coord q))"
  shows "flood_inv gb start pend (g, stack, squares)"
  unfolding flood_inv_def prod.case using assms by (intro conjI)

lemma flood_inv_expose:
  assumes inv: "flood_inv gb start pend (g, stack, squares)"
    and p: "p \<in> pend" and pz: "count_at gb p = 0"
    and adj: "adjacent p n" and nb: "in_board gb n" and ne: "\<not> is_exposed g n"
  shows "flood_inv gb start pend
           (expose_square g (fst n) (snd n),
            (if count_at gb n = 0 then n # stack else stack),
            squares @ [Square (fst n) (snd n) (count_at gb n)])"
proof -
  let ?g' = "expose_square g (fst n) (snd n)"
  let ?q = "Square (fst n) (snd n) (count_at gb n)"
  let ?S = "coord ` set squares"
  let ?S' = "coord ` set (squares @ [?q])"
  have cq: "coord ?q = n" by (simp add: coord_def)
  have S': "?S' = insert n ?S" using cq by simp
  from inv have wf: "wf_game g" and sb: "same_board gb g"
    and cnt: "num_exposed_squares g = num_exposed_squares gb + int (length squares)"
    and dist: "distinct (map coord squares)"
    and ex: "\<And>c. in_board gb c \<Longrightarrow> is_exposed g c = (is_exposed gb c \<or> c \<in> ?S)"
    and sq: "\<And>q. q \<in> set squares \<Longrightarrow> in_board gb (coord q) \<and> \<not> is_exposed gb (coord q) \<and>
                         sq_num_mines q = count_at gb (coord q)"
    and stk: "\<And>c. c \<in> set stack \<Longrightarrow> c \<in> ?S \<and> count_at gb c = 0"
    and conn: "\<And>q. q \<in> set squares \<Longrightarrow> (start, coord q) \<in> (adj_on ?S)\<^sup>*"
    and clo: "\<And>q. q \<in> set squares \<Longrightarrow> count_at gb (coord q) = 0 \<Longrightarrow>
            coord q \<in> set stack \<or> coord q \<in> pend \<or>
            (\<forall>n\<in>set (neighbours gb (coord q)). is_exposed g n)"
    and pend: "pend \<subseteq> ?S"
    and st: "start \<in> ?S"
    and org: "\<And>q. q \<in> set squares \<Longrightarrow> coord q = start \<or>
            (\<exists>p\<in>?S. count_at gb p = 0 \<and> adjacent p (coord q))"
    using flood_invD [OF inv] by blast+
  have nbg: "in_board g n" using nb sb by (simp add: same_board_derived)
  have nS: "n \<notin> ?S" and neb: "\<not> is_exposed gb n" using ex [OF nb] ne by auto
  have ex': "\<And>c. in_board gb c \<Longrightarrow> is_exposed ?g' c = (is_exposed gb c \<or> c \<in> ?S')"
  proof -
    fix c assume c: "in_board gb c"
    then have "in_board g c" using sb by (simp add: same_board_derived)
    then have "is_exposed ?g' c = (c = n \<or> is_exposed g c)"
      using is_exposed_expose [OF wf _ \<open>in_board g c\<close>, of "fst n" "snd n"] nbg by simp
    then show "is_exposed ?g' c = (is_exposed gb c \<or> c \<in> ?S')"
      using ex [OF c] S' by auto
  qed
  have c1: "wf_game ?g'" using wf by (rule wf_expose)
  have c2: "same_board gb ?g'" using sb by (rule same_board_expose)
  have c3: "num_exposed_squares ?g' = num_exposed_squares gb + int (length (squares @ [?q]))"
    using cnt by simp
  have c4: "distinct (map coord (squares @ [?q]))" using dist nS cq by simp
  have c6: "\<forall>q\<in>set (squares @ [?q]). in_board gb (coord q) \<and> \<not> is_exposed gb (coord q) \<and>
                         sq_num_mines q = count_at gb (coord q)"
    using sq nb neb cq by auto
  have c7: "\<forall>c\<in>set (if count_at gb n = 0 then n # stack else stack). c \<in> ?S' \<and> count_at gb c = 0"
    using stk S' by auto
  have pS: "p \<in> ?S" using p pend by auto
  have c8: "\<forall>q\<in>set (squares @ [?q]). (start, coord q) \<in> (adj_on ?S')\<^sup>*"
  proof
    fix q assume "q \<in> set (squares @ [?q])"
    then consider "q \<in> set squares" | "q = ?q" by auto
    then show "(start, coord q) \<in> (adj_on ?S')\<^sup>*"
    proof cases
      case 1
      then show ?thesis using conn [OF 1] adj_on_rtrancl_mono [of ?S ?S'] S' by blast
    next
      case 2
      obtain qp where qp: "qp \<in> set squares" "coord qp = p" using pS by auto
      have "(start, p) \<in> (adj_on ?S')\<^sup>*"
        using conn [OF qp(1)] qp(2) adj_on_rtrancl_mono [of ?S ?S'] S' by blast
      moreover have "(p, n) \<in> adj_on ?S'" using pS adj S' by (simp add: adj_on_def)
      ultimately show ?thesis using 2 cq by (simp add: rtrancl_into_rtrancl)
    qed
  qed
  have c9: "\<forall>q\<in>set (squares @ [?q]). count_at gb (coord q) = 0 \<longrightarrow>
            coord q \<in> set (if count_at gb n = 0 then n # stack else stack) \<or> coord q \<in> pend \<or>
            (\<forall>m\<in>set (neighbours gb (coord q)). is_exposed ?g' m)"
  proof (intro ballI impI)
    fix q assume q: "q \<in> set (squares @ [?q])" and z: "count_at gb (coord q) = 0"
    from q consider "q \<in> set squares" | "q = ?q" by auto
    then show "coord q \<in> set (if count_at gb n = 0 then n # stack else stack) \<or> coord q \<in> pend \<or>
            (\<forall>m\<in>set (neighbours gb (coord q)). is_exposed ?g' m)"
    proof cases
      case 1
      from clo [OF 1 z] show ?thesis
      proof (elim disjE)
        assume "\<forall>m\<in>set (neighbours gb (coord q)). is_exposed g m"
        then have "\<forall>m\<in>set (neighbours gb (coord q)). is_exposed ?g' m"
          using ex ex' S' by (auto simp: set_neighbours)
        then show ?thesis by simp
      qed auto
    next
      case 2
      then show ?thesis using z cq by simp
    qed
  qed
  have c10: "pend \<subseteq> ?S'" using pend S' by auto
  have c11: "start \<in> ?S'" using st S' by auto
  have c12: "\<forall>q\<in>set (squares @ [?q]). coord q = start \<or>
            (\<exists>p\<in>?S'. count_at gb p = 0 \<and> adjacent p (coord q))"
  proof
    fix q assume "q \<in> set (squares @ [?q])"
    then consider "q \<in> set squares" | "q = ?q" by auto
    then show "coord q = start \<or> (\<exists>p\<in>?S'. count_at gb p = 0 \<and> adjacent p (coord q))"
    proof cases
      case 1
      then show ?thesis using org [OF 1] S' by auto
    next
      case 2
      have "p \<in> ?S'" using p pend S' by auto
      then show ?thesis using 2 cq pz adj by auto
    qed
  qed
  show ?thesis
    by (rule flood_invI) (use c1 c2 c3 c4 ex' c6 c7 c8 c9 c10 c11 c12 in blast)+
qed


lemma flood_visit_inv:
  assumes inv: "flood_inv gb start {p} (g, stack, squares)" and d: "d \<in> set offsets"
    and pz: "count_at gb p = 0"
  shows "flood_inv gb start {p} (flood_visit (fst p) (snd p) d (g, stack, squares))"
proof -
  let ?n = "(fst p + fst d, snd p + snd d)"
  have sb: "same_board gb g" using flood_invD(2) [OF inv] .
  show ?thesis
  proof (cases "d = (0, 0) \<or> \<not> in_board g ?n \<or> is_exposed g ?n")
    case True
    then show ?thesis using inv by (simp add: flood_visit_eq)
  next
    case False
    then have "adjacent p ?n" using d adjacent_offset [of p ?n] by blast
    moreover have "in_board gb ?n" using False sb by (simp add: same_board_derived)
    moreover have "\<not> is_exposed g ?n" using False by simp
    ultimately have "flood_inv gb start {p}
           (expose_square g (fst ?n) (snd ?n),
            (if count_at gb ?n = 0 then ?n # stack else stack),
            squares @ [Square (fst ?n) (snd ?n) (count_at gb ?n)])"
      using flood_inv_expose [OF inv, of p ?n] pz by simp
    moreover have "count_at g ?n = count_at gb ?n" using sb by (simp add: same_board_derived)
    ultimately show ?thesis using False by (simp add: flood_visit_eq Let_def)
  qed
qed

lemma fold_visit_inv:
  assumes "flood_inv gb start {p} s" "set ds \<subseteq> set offsets" "count_at gb p = 0"
  shows "flood_inv gb start {p} (fold (flood_visit (fst p) (snd p)) ds s)"
  using assms
proof (induction ds arbitrary: s)
  case Nil
  then show ?case by simp
next
  case (Cons d ds)
  obtain g stack squares where s: "s = (g, stack, squares)" by (cases s)
  have "flood_inv gb start {p} (flood_visit (fst p) (snd p) d s)"
    using Cons.prems flood_visit_inv [of gb start p g stack squares d] by (simp add: s)
  then show ?case using Cons.IH Cons.prems(2,3) by simp
qed

text \<open>Exposure only grows while the invariant holds.\<close>

lemma flood_visit_exposes:
  assumes inv: "flood_inv gb start {p} (g, stack, squares)" and d: "d \<in> set offsets"
    and s': "flood_visit (fst p) (snd p) d (g, stack, squares) = (g', stack', squares')"
  shows "(\<forall>c. in_board gb c \<longrightarrow> is_exposed g c \<longrightarrow> is_exposed g' c) \<and>
         (d \<noteq> (0, 0) \<longrightarrow> in_board gb (fst p + fst d, snd p + snd d) \<longrightarrow>
            is_exposed g' (fst p + fst d, snd p + snd d))"
proof -
  let ?n = "(fst p + fst d, snd p + snd d)"
  have sb: "same_board gb g" and wf: "wf_game g" using flood_invD(1,2) [OF inv] by simp_all
  show ?thesis
  proof (cases "d = (0, 0) \<or> \<not> in_board g ?n \<or> is_exposed g ?n")
    case True
    then have "g' = g" using s' by (simp add: flood_visit_eq)
    then show ?thesis using True sb by (auto simp: same_board_derived)
  next
    case False
    then have g': "g' = expose_square g (fst ?n) (snd ?n)"
      using s' by (simp add: flood_visit_eq Let_def)
    have nb: "in_board g (fst ?n, snd ?n)" using False by simp
    have "\<And>c. in_board gb c \<Longrightarrow> is_exposed g' c = (c = ?n \<or> is_exposed g c)"
      unfolding g' using is_exposed_expose [OF wf nb] sb by (simp add: same_board_derived)
    then show ?thesis by simp
  qed
qed

lemma fold_visit_exposes:
  assumes "flood_inv gb start {p} s" "set ds \<subseteq> set offsets" "count_at gb p = 0"
  shows "(\<forall>c. in_board gb c \<longrightarrow> is_exposed (fst s) c \<longrightarrow>
             is_exposed (fst (fold (flood_visit (fst p) (snd p)) ds s)) c) \<and>
         (\<forall>d\<in>set ds. d \<noteq> (0, 0) \<longrightarrow> in_board gb (fst p + fst d, snd p + snd d) \<longrightarrow>
             is_exposed (fst (fold (flood_visit (fst p) (snd p)) ds s)) (fst p + fst d, snd p + snd d))"
  using assms
proof (induction ds arbitrary: s)
  case Nil
  then show ?case by simp
next
  case (Cons d ds)
  obtain g stack squares where s: "s = (g, stack, squares)" by (cases s)
  obtain g' stack' squares' where
    v: "flood_visit (fst p) (snd p) d (g, stack, squares) = (g', stack', squares')"
    by (cases "flood_visit (fst p) (snd p) d (g, stack, squares)")
  have inv: "flood_inv gb start {p} (g, stack, squares)" using Cons.prems(1) s by simp
  have d: "d \<in> set offsets" and ds: "set ds \<subseteq> set offsets" using Cons.prems(2) by simp_all
  have inv': "flood_inv gb start {p} (g', stack', squares')"
    using flood_visit_inv [OF inv d Cons.prems(3)] v by simp
  note A = flood_visit_exposes [OF inv d v]
  note B = Cons.IH [OF inv' ds Cons.prems(3), unfolded fst_conv]
  let ?r = "fst (fold (flood_visit (fst p) (snd p)) ds (g', stack', squares'))"
  have mono: "\<And>c. in_board gb c \<Longrightarrow> is_exposed g c \<Longrightarrow> is_exposed ?r c"
    using A B by blast
  have new: "\<And>e. e \<in> set (d # ds) \<Longrightarrow> e \<noteq> (0, 0) \<Longrightarrow>
      in_board gb (fst p + fst e, snd p + snd e) \<Longrightarrow> is_exposed ?r (fst p + fst e, snd p + snd e)"
  proof -
    fix e assume e: "e \<in> set (d # ds)" "e \<noteq> (0, 0)" "in_board gb (fst p + fst e, snd p + snd e)"
    show "is_exposed ?r (fst p + fst e, snd p + snd e)"
    proof (cases "e \<in> set ds")
      case True
      then show ?thesis using B e by blast
    next
      case False
      then have "e = d" using e(1) by simp
      then have "is_exposed g' (fst p + fst e, snd p + snd e)" using A e by blast
      then show ?thesis using B e(3) by simp
    qed
  qed
  show ?case using mono new by (simp add: s v)
qed

lemma flood_step_inv:
  assumes inv: "flood_inv gb start {} (g, stack, squares)" and ne: "stack \<noteq> []"
  shows "flood_inv gb start {} (flood_step (g, stack, squares))"
proof -
  obtain p rest where st: "stack = p # rest" using ne by (cases stack) auto
  note D = flood_invD [OF inv]
  have pS: "p \<in> coord ` set squares" and pz: "count_at gb p = 0" using D(7) st by simp_all
  have inv1: "flood_inv gb start {p} (g, rest, squares)"
  proof (rule flood_invI)
    show "\<forall>c\<in>set rest. c \<in> coord ` set squares \<and> count_at gb c = 0" using D(7) st by simp
    show "\<forall>q\<in>set squares. count_at gb (coord q) = 0 \<longrightarrow>
            coord q \<in> set rest \<or> coord q \<in> {p} \<or>
            (\<forall>n\<in>set (neighbours gb (coord q)). is_exposed g n)"
      using D(9) st by auto
    show "{p} \<subseteq> coord ` set squares" using pS by simp
  qed (use D in blast)+
  let ?s' = "fold (flood_visit (fst p) (snd p)) offsets (g, rest, squares)"
  obtain g' stack' squares' where s': "?s' = (g', stack', squares')" by (cases ?s')
  have inv2: "flood_inv gb start {p} (g', stack', squares')"
    using fold_visit_inv [OF inv1 _ pz, of offsets] s' by simp
  note D' = flood_invD [OF inv2]
  have E: "\<forall>d\<in>set offsets. d \<noteq> (0, 0) \<longrightarrow> in_board gb (fst p + fst d, snd p + snd d) \<longrightarrow>
             is_exposed g' (fst p + fst d, snd p + snd d)"
    using fold_visit_exposes [OF inv1 _ pz, of offsets] s' by simp
  have closed: "\<forall>n\<in>set (neighbours gb p). is_exposed g' n"
  proof
    fix n assume "n \<in> set (neighbours gb p)"
    then have nb: "in_board gb n" and "adjacent p n" by (simp_all add: set_neighbours)
    then obtain d where "d \<in> set offsets" "d \<noteq> (0, 0)" "n = (fst p + fst d, snd p + snd d)"
      using adjacent_offset [of p n] by blast
    then show "is_exposed g' n" using E nb by blast
  qed
  have "flood_inv gb start {} (g', stack', squares')"
  proof (rule flood_invI)
    show "\<forall>q\<in>set squares'. count_at gb (coord q) = 0 \<longrightarrow>
            coord q \<in> set stack' \<or> coord q \<in> {} \<or>
            (\<forall>n\<in>set (neighbours gb (coord q)). is_exposed g' n)"
      using D'(9) closed by auto
    show "{} \<subseteq> coord ` set squares'" by simp
  qed (use D' in blast)+
  then show ?thesis by (simp add: flood_step_def st s')
qed

lemma flood_inv_init:
  assumes wf: "wf_game gb" and b: "in_board gb (x, y)" and e: "\<not> is_exposed gb (x, y)"
    and z: "(x, y) \<in> set stack \<or> (x, y) \<in> pend \<or> count_at gb (x, y) \<noteq> 0"
    and st: "set stack \<subseteq> {(x, y)}" "stack \<noteq> [] \<longrightarrow> count_at gb (x, y) = 0"
    and pe: "pend \<subseteq> {(x, y)}"
  shows "flood_inv gb (x, y) pend
           (expose_square gb x y, stack, [Square x y (count_at gb (x, y))])"
proof (rule flood_invI)
  show "wf_game (expose_square gb x y)" using wf by (rule wf_expose)
  show "same_board gb (expose_square gb x y)" by (simp add: same_board_def)
  show "\<forall>c. in_board gb c \<longrightarrow> is_exposed (expose_square gb x y) c =
          (is_exposed gb c \<or> c \<in> coord ` set [Square x y (count_at gb (x, y))])"
    using is_exposed_expose [OF wf b] by (auto simp: coord_def)
  show "\<forall>q\<in>set [Square x y (count_at gb (x, y))].
          ((x, y), coord q) \<in> (adj_on (coord ` set [Square x y (count_at gb (x, y))]))\<^sup>*"
    by (simp add: coord_def)
  show "\<forall>c\<in>set stack. c \<in> coord ` set [Square x y (count_at gb (x, y))] \<and> count_at gb c = 0"
    using st by (cases stack) (auto simp: coord_def)
  show "\<forall>q\<in>set [Square x y (count_at gb (x, y))]. count_at gb (coord q) = 0 \<longrightarrow>
            coord q \<in> set stack \<or> coord q \<in> pend \<or>
            (\<forall>n\<in>set (neighbours gb (coord q)). is_exposed (expose_square gb x y) n)"
    using z by (auto simp: coord_def)
  show "pend \<subseteq> coord ` set [Square x y (count_at gb (x, y))]"
    using pe by (auto simp: coord_def)
qed (use b e in \<open>simp_all add: coord_def\<close>)

lemma flood_result:
  assumes wf: "wf_game gb" and b: "in_board gb (x, y)" and e: "\<not> is_exposed gb (x, y)"
    and z: "count_at gb (x, y) = 0"
  shows "\<exists>g' squares'.
           flood (expose_square gb x y, [(x, y)], [Square x y (count_at gb (x, y))])
             = Some (g', [], squares') \<and>
           flood_inv gb (x, y) {} (g', [], squares')"
proof -
  let ?s0 = "(expose_square gb x y, [(x, y)], [Square x y (count_at gb (x, y))])"
  obtain t where t: "flood ?s0 = Some t"
    using flood_terminates [OF wf_expose [OF wf]] by blast
  obtain g' stack' squares' where t': "t = (g', stack', squares')" by (cases t)
  have st: "stack' = []"
    using while_option_stop [OF t [unfolded flood_def]] t' by simp
  have "flood_inv gb (x, y) {} t"
  proof (rule while_option_rule [OF _ t [unfolded flood_def],
        where P = "\<lambda>s. flood_inv gb (x, y) {} s"])
    show "flood_inv gb (x, y) {} ?s0"
      using flood_inv_init [OF wf b e, of "[(x, y)]" "{}"] z by simp
  next
    fix s :: flood_state
    assume a: "flood_inv gb (x, y) {} s"
      and c: "case s of (g, stack, squares) \<Rightarrow> stack \<noteq> []"
    obtain g stack squares where s: "s = (g, stack, squares)" by (cases s)
    show "flood_inv gb (x, y) {} (flood_step s)"
      using a c s flood_step_inv [of gb "(x, y)" g stack squares] by simp
  qed
  then show ?thesis using t t' st by simp
qed

section \<open>The outcome of a selection\<close>

lemma update_result:
  assumes wf: "wf_game gb" and b: "in_board gb (x, y)" and e: "\<not> is_exposed gb (x, y)"
  shows "\<exists>squares g'. update gb x y = Some (squares, g') \<and>
           flood_inv gb (x, y) (move_pend gb (x, y)) (g'\<lparr>explosion := explosion gb\<rparr>, [], squares) \<and>
           explosion g' = (explosion gb \<or> is_mine gb (x, y)) \<and>
           (is_mine gb (x, y) \<or> count_at gb (x, y) \<noteq> 0 \<longrightarrow>
              squares = [Square x y (count_at gb (x, y))])"
proof -
  let ?g1 = "expose_square gb x y"
  let ?sq = "[Square x y (count_at gb (x, y))]"
  have eq: "?g1\<lparr>explosion := explosion gb\<rparr> = ?g1" by (simp add: expose_square_def)
  consider (mine) "is_mine gb (x, y)"
    | (nonzero) "\<not> is_mine gb (x, y)" "count_at gb (x, y) \<noteq> 0"
    | (zero) "\<not> is_mine gb (x, y)" "count_at gb (x, y) = 0" by blast
  then show ?thesis
  proof cases
    case mine
    have u: "update gb x y = Some (?sq, ?g1\<lparr>explosion := True\<rparr>)"
      using mine by (simp add: update_def Let_def count_at_def is_mine_def)
    have "flood_inv gb (x, y) {(x, y)} (?g1\<lparr>explosion := explosion gb\<rparr>, [], ?sq)"
      using flood_inv_init [OF wf b e, of "[]" "{(x, y)}"] by (simp add: eq)
    then show ?thesis using u mine by (simp add: move_pend_def)
  next
    case nonzero
    have u: "update gb x y = Some (?sq, ?g1)"
      using nonzero by (simp add: update_def Let_def count_at_def is_mine_def)
    have "flood_inv gb (x, y) {(x, y)} (?g1\<lparr>explosion := explosion gb\<rparr>, [], ?sq)"
      using flood_inv_init [OF wf b e, of "[]" "{(x, y)}"] by (simp add: eq)
    then show ?thesis using u nonzero by (simp add: move_pend_def)
  next
    case zero
    obtain g' squares' where f: "flood (?g1, [(x, y)], ?sq) = Some (g', [], squares')"
      and inv: "flood_inv gb (x, y) {} (g', [], squares')"
      using flood_result [OF wf b e zero(2)] by blast
    have u: "update gb x y = Some (squares', g')"
      using zero f by (simp add: update_def Let_def count_at_def is_mine_def)
    have ee: "explosion g' = explosion gb" using flood_invD(2) [OF inv] by (simp add: same_board_def)
    have "g'\<lparr>explosion := explosion g'\<rparr> = g'" by simp
    then have "g'\<lparr>explosion := explosion gb\<rparr> = g'" by (simp only: ee)
    then have "flood_inv gb (x, y) {} (g'\<lparr>explosion := explosion gb\<rparr>, [], squares')"
      using inv by (simp only:)
    then show ?thesis using u zero ee by (simp add: move_pend_def)
  qed
qed

lemma moved_derived [simp]:
  "wf_game (g\<lparr>num_moves := n\<rparr>) = wf_game g"
  "in_board (g\<lparr>num_moves := n\<rparr>) c = in_board g c"
  "is_exposed (g\<lparr>num_moves := n\<rparr>) c = is_exposed g c"
  "is_mine (g\<lparr>num_moves := n\<rparr>) c = is_mine g c"
  "count_at (g\<lparr>num_moves := n\<rparr>) c = count_at g c"
  "move_pend (g\<lparr>num_moves := n\<rparr>) c = move_pend g c"
  by (simp_all add: wf_game_def in_board_def is_exposed_def is_mine_def count_at_def move_pend_def)

text \<open>The three error branches of a selection and its successful branch.\<close>

lemma select_outside: "\<not> in_board g (x, y) \<Longrightarrow> select g x y = Some (Inl OutsideBoard, g)"
  by (simp add: select_def outside_iff)

lemma select_over:
  "in_board g (x, y) \<Longrightarrow> explosion g \<Longrightarrow> select g x y = Some (Inl AlreadyOver, g)"
  by (simp add: select_def outside_iff)

lemma select_exposed:
  "in_board g (x, y) \<Longrightarrow> \<not> explosion g \<Longrightarrow> is_exposed g (x, y) \<Longrightarrow>
     select g x y = Some (Inl AlreadyExposed, g)"
  by (simp add: select_def outside_iff is_exposed_def)

lemma select_success:
  assumes wf: "wf_game g" and b: "in_board g (x, y)" and ne: "\<not> explosion g"
    and e: "\<not> is_exposed g (x, y)"
  shows "\<exists>squares g'.
           select g x y = Some (Inr (MoveResult (status g') (set squares)), g') \<and>
           flood_inv (g\<lparr>num_moves := num_moves g + 1\<rparr>) (x, y) (move_pend g (x, y))
             (g'\<lparr>explosion := False\<rparr>, [], squares) \<and>
           explosion g' = is_mine g (x, y) \<and>
           (is_mine g (x, y) \<or> count_at g (x, y) \<noteq> 0 \<longrightarrow>
              squares = [Square x y (count_at g (x, y))])"
proof -
  let ?gb = "g\<lparr>num_moves := num_moves g + 1\<rparr>"
  obtain squares g' where u: "update ?gb x y = Some (squares, g')"
    and inv: "flood_inv ?gb (x, y) (move_pend ?gb (x, y)) (g'\<lparr>explosion := explosion ?gb\<rparr>, [], squares)"
    and ex: "explosion g' = (explosion ?gb \<or> is_mine ?gb (x, y))"
    and one: "is_mine ?gb (x, y) \<or> count_at ?gb (x, y) \<noteq> 0 \<longrightarrow>
              squares = [Square x y (count_at ?gb (x, y))]"
    using update_result [of ?gb x y] wf b e by auto
  have "select g x y = Some (Inr (MoveResult (status g') (set squares)), g')"
    using b ne e u by (simp add: select_def outside_iff is_exposed_def)
  moreover have "flood_inv ?gb (x, y) (move_pend g (x, y)) (g'\<lparr>explosion := False\<rparr>, [], squares)"
    using inv ne by simp
  moreover have "explosion g' = is_mine g (x, y)" using ex ne by simp
  moreover have "is_mine g (x, y) \<or> count_at g (x, y) \<noteq> 0 \<longrightarrow>
              squares = [Square x y (count_at g (x, y))]" using one by simp
  ultimately show ?thesis by blast
qed

lemma move_postD:
  assumes "move_post g x y squares g'"
  shows "wf_game g'"
    "width g' = width g" "height g' = height g" "num_mines g' = num_mines g"
    "num_safe_squares g' = num_safe_squares g" "counts g' = counts g" "mines g' = mines g"
    "quit_flag g' = quit_flag g" "num_moves g' = num_moves g + 1"
    "explosion g' = is_mine g (x, y)"
    "num_exposed_squares g' = num_exposed_squares g + int (length squares)"
    "distinct (map coord squares)"
    "\<forall>c. in_board g c \<longrightarrow> is_exposed g' c = (is_exposed g c \<or> c \<in> coord ` set squares)"
    "\<forall>q\<in>set squares. in_board g (coord q) \<and> \<not> is_exposed g (coord q) \<and>
                       sq_num_mines q = count_at g (coord q)"
    "\<forall>q\<in>set squares. ((x, y), coord q) \<in> (adj_on (coord ` set squares))\<^sup>*"
    "\<forall>q\<in>set squares. count_at g (coord q) = 0 \<longrightarrow> coord q \<in> move_pend g (x, y) \<or>
          (\<forall>n\<in>set (neighbours g (coord q)). is_exposed g' n)"
    "(x, y) \<in> coord ` set squares"
    "\<forall>q\<in>set squares. coord q = (x, y) \<or>
          (\<exists>p\<in>coord ` set squares. count_at g p = 0 \<and> adjacent p (coord q))"
    "is_mine g (x, y) \<or> count_at g (x, y) \<noteq> 0 \<longrightarrow> squares = [Square x y (count_at g (x, y))]"
  using assms unfolding move_post_def by simp_all

lemma flood_inv_move_post:
  assumes inv: "flood_inv (g\<lparr>num_moves := num_moves g + 1\<rparr>) (x, y) (move_pend g (x, y))
             (g'\<lparr>explosion := False\<rparr>, [], squares)"
    and ne: "\<not> explosion g"
    and ex: "explosion g' = is_mine g (x, y)"
    and one: "is_mine g (x, y) \<or> count_at g (x, y) \<noteq> 0 \<longrightarrow>
              squares = [Square x y (count_at g (x, y))]"
  shows "move_post g x y squares g'"
proof -
  note D = flood_invD [OF inv]
  have sb: "same_board (g\<lparr>num_moves := num_moves g + 1\<rparr>) (g'\<lparr>explosion := False\<rparr>)" using D(2) .
  have "wf_game g'" using D(1) by (simp add: wf_game_def)
  moreover have "\<And>c. is_exposed (g'\<lparr>explosion := False\<rparr>) c = is_exposed g' c"
    by (simp add: is_exposed_def)
  moreover have "\<And>c. neighbours (g\<lparr>num_moves := num_moves g + 1\<rparr>) c = neighbours g c"
    by (simp add: neighbours_def cong: filter_cong)
  ultimately show ?thesis
    unfolding move_post_def
    using sb D(3-12) ex one by (simp add: same_board_def)
qed

lemma select_move_post:
  assumes wf: "wf_game g" and b: "in_board g (x, y)" and ne: "\<not> explosion g"
    and e: "\<not> is_exposed g (x, y)"
  shows "\<exists>squares g'.
           select g x y = Some (Inr (MoveResult (status g') (set squares)), g') \<and>
           move_post g x y squares g'"
  using select_success [OF wf b ne e] flood_inv_move_post [OF _ ne] by blast

section \<open>The invariant of the game is kept\<close>

lemma board_eq_derived:
  assumes "width g' = width g" "height g' = height g" "counts g' = counts g" "mines g' = mines g"
  shows "cells g' = cells g" "in_board g' = in_board g" "count_at g' = count_at g"
    "is_mine g' = is_mine g" "neighbours g' = neighbours g"
    "neighbour_mines g' = neighbour_mines g" "mine_cells g' = mine_cells g"
proof -
  show c: "cells g' = cells g" using assms by (simp add: cells_def)
  show b: "in_board g' = in_board g" using assms by (simp add: in_board_def fun_eq_iff)
  show "count_at g' = count_at g" using assms by (simp add: count_at_def fun_eq_iff)
  show m: "is_mine g' = is_mine g" using assms by (simp add: is_mine_def fun_eq_iff)
  show n: "neighbours g' = neighbours g" by (simp add: neighbours_def fun_eq_iff b)
  show "neighbour_mines g' = neighbour_mines g" by (simp add: neighbour_mines_def fun_eq_iff n m)
  show "mine_cells g' = mine_cells g" by (simp add: mine_cells_def c m)
qed

lemma game_invD:
  assumes "game_inv g"
  shows "wf_game g"
    "\<forall>c. in_board g c \<longrightarrow> count_at g c = neighbour_mines g c"
    "num_exposed_squares g = int (card {c. in_board g c \<and> is_exposed g c})"
    "int (card {c. in_board g c \<and> is_mine g c}) = num_mines g"
    "num_safe_squares g = width g * height g - num_mines g"
    "explosion g \<longleftrightarrow> (\<exists>c. in_board g c \<and> is_exposed g c \<and> is_mine g c)"
  using assms
  by (auto simp: game_inv_def list_all_iff list_ex_iff set_cells exposed_cells_def mine_cells_def
      length_filter_cells)

lemma game_invI:
  assumes "wf_game g"
    "\<forall>c. in_board g c \<longrightarrow> count_at g c = neighbour_mines g c"
    "num_exposed_squares g = int (card {c. in_board g c \<and> is_exposed g c})"
    "int (card {c. in_board g c \<and> is_mine g c}) = num_mines g"
    "num_safe_squares g = width g * height g - num_mines g"
    "explosion g \<longleftrightarrow> (\<exists>c. in_board g c \<and> is_exposed g c \<and> is_mine g c)"
  shows "game_inv g"
  using assms
  by (auto simp: game_inv_def list_all_iff list_ex_iff set_cells exposed_cells_def mine_cells_def
      length_filter_cells)

text \<open>A cell next to a cell of count zero holds no mine.\<close>

lemma zero_count_neighbour_safe:
  assumes cnt: "\<forall>c. in_board g c \<longrightarrow> count_at g c = neighbour_mines g c"
    and p: "in_board g p" "count_at g p = 0" and n: "in_board g n" "adjacent p n"
  shows "\<not> is_mine g n"
proof -
  have "neighbour_mines g p = 0" using cnt p by metis
  then have "filter (is_mine g) (neighbours g p) = []" by (simp add: neighbour_mines_def)
  moreover have "n \<in> set (neighbours g p)" using n by (simp add: set_neighbours)
  ultimately show ?thesis by (metis filter_empty_conv)
qed

lemma move_post_exposed_card:
  assumes mp: "move_post g x y squares g'"
  shows "card {c. in_board g c \<and> is_exposed g' c}
         = card {c. in_board g c \<and> is_exposed g c} + length squares"
proof -
  note D = move_postD [OF mp]
  let ?E = "{c. in_board g c \<and> is_exposed g c}"
  let ?S = "coord ` set squares"
  have "{c. in_board g c \<and> is_exposed g' c} = ?E \<union> ?S" using D(13,14) by blast
  moreover have "?E \<inter> ?S = {}" using D(14) by blast
  moreover have "finite ?E" using finite_board [of g] by simp
  moreover have "finite ?S" by simp
  moreover have "card ?S = length squares"
    using distinct_card [OF D(12)] by simp
  ultimately show ?thesis by (simp add: card_Un_disjoint)
qed

lemma move_post_safe:
  assumes mp: "move_post g x y squares g'"
    and cnt: "\<forall>c. in_board g c \<longrightarrow> count_at g c = neighbour_mines g c"
    and q: "q \<in> set squares" and nm: "\<not> is_mine g (x, y)"
  shows "\<not> is_mine g (coord q)"
proof -
  note D = move_postD [OF mp]
  from D(18) q consider "coord q = (x, y)"
    | p where "p \<in> coord ` set squares" "count_at g p = 0" "adjacent p (coord q)" by blast
  then show ?thesis
  proof cases
    case 1
    then show ?thesis using nm by simp
  next
    case 2
    have "in_board g p" using 2(1) D(14) by auto
    moreover have "in_board g (coord q)" using q D(14) by auto
    ultimately show ?thesis using zero_count_neighbour_safe [OF cnt _ 2(2) _ 2(3)] by simp
  qed
qed

lemma move_post_game_inv:
  assumes inv: "game_inv g" and ne: "\<not> explosion g" and mp: "move_post g x y squares g'"
  shows "game_inv g'"
proof -
  note G = game_invD [OF inv]
  note D = move_postD [OF mp]
  note B = board_eq_derived [OF D(2,3,6,7)]
  show ?thesis
  proof (rule game_invI)
    show "wf_game g'" using D(1) .
    show "\<forall>c. in_board g' c \<longrightarrow> count_at g' c = neighbour_mines g' c"
      using G(2) by (simp add: B)
    show "num_exposed_squares g' = int (card {c. in_board g' c \<and> is_exposed g' c})"
      using move_post_exposed_card [OF mp] D(11) G(3) by (simp add: B)
    show "int (card {c. in_board g' c \<and> is_mine g' c}) = num_mines g'"
      using G(4) D(4) by (simp add: B)
    show "num_safe_squares g' = width g' * height g' - num_mines g'"
      using G(5) D(2-5) by simp
    show "explosion g' \<longleftrightarrow> (\<exists>c. in_board g' c \<and> is_exposed g' c \<and> is_mine g' c)"
    proof
      assume "explosion g'"
      then have m: "is_mine g (x, y)" using D(10) by simp
      obtain q0 where q0: "q0 \<in> set squares" "coord q0 = (x, y)" using D(17) by auto
      then have "in_board g (coord q0)" using D(14) by blast
      then have "in_board g (x, y)" using q0 by simp
      moreover have "is_exposed g' (x, y)" using D(13,17) \<open>in_board g (x, y)\<close> by blast
      ultimately show "\<exists>c. in_board g' c \<and> is_exposed g' c \<and> is_mine g' c"
        using m by (auto simp: B)
    next
      assume "\<exists>c. in_board g' c \<and> is_exposed g' c \<and> is_mine g' c"
      then obtain c where c: "in_board g c" "is_exposed g' c" "is_mine g c" by (auto simp: B)
      have "\<not> is_exposed g c" using G(6) ne c by blast
      then obtain q where q: "q \<in> set squares" "coord q = c" using D(13) c by blast
      have "is_mine g (x, y)"
      proof (rule ccontr)
        assume "\<not> is_mine g (x, y)"
        then have "\<not> is_mine g (coord q)" using move_post_safe [OF mp G(2) q(1)] by simp
        then show False using q c by simp
      qed
      then show "explosion g'" using D(10) by simp
    qed
  qed
qed

lemma quit_fields [simp]:
  "width (quit g) = width g" "height (quit g) = height g" "num_mines (quit g) = num_mines g"
  "num_moves (quit g) = num_moves g" "num_exposed_squares (quit g) = num_exposed_squares g"
  "explosion (quit g) = explosion g" "quit_flag (quit g) = True"
  "num_safe_squares (quit g) = num_safe_squares g" "exposed (quit g) = exposed g"
  "counts (quit g) = counts g" "mines (quit g) = mines g"
  by (simp_all add: quit_def)

lemma quit_game_inv:
  assumes "game_inv g"
  shows "game_inv (quit g)"
proof -
  note G = game_invD [OF assms]
  note B = board_eq_derived [of "quit g" g, simplified]
  have e: "\<And>c. is_exposed (quit g) c = is_exposed g c" by (simp add: is_exposed_def)
  show ?thesis
    by (rule game_invI) (use G in \<open>simp_all add: B e wf_game_def\<close>)
qed

text \<open>Every selection returns, and keeps the invariant.\<close>

lemma select_total:
  assumes "wf_game g"
  shows "\<exists>r g'. select g x y = Some (r, g')"
proof (cases "in_board g (x, y) \<and> \<not> explosion g \<and> \<not> is_exposed g (x, y)")
  case True
  then show ?thesis using select_move_post [OF assms, of x y] by blast
next
  case False
  then show ?thesis
    using select_outside [of g x y] select_over [of g x y] select_exposed [of g x y] by blast
qed

lemma select_game_inv:
  assumes inv: "game_inv g" and s: "select g x y = Some (r, g')"
  shows "game_inv g'"
proof (cases "in_board g (x, y) \<and> \<not> explosion g \<and> \<not> is_exposed g (x, y)")
  case True
  then obtain squares g2 where
    "select g x y = Some (Inr (MoveResult (status g2) (set squares)), g2)"
    "move_post g x y squares g2"
    using select_move_post [OF game_invD(1) [OF inv], of x y] by blast
  then show ?thesis using s move_post_game_inv [OF inv] True by simp
next
  case False
  then have "g' = g"
    using s select_outside [of g x y] select_over [of g x y] select_exposed [of g x y] by auto
  then show ?thesis using inv by simp
qed

section \<open>Counting the exposed cells\<close>

lemma card_board: "wf_game g \<Longrightarrow> int (card {c. in_board g c}) = width g * height g"
proof -
  assume wf: "wf_game g"
  have "card {c. in_board g c} = length (cells g)"
    using distinct_card [OF distinct_cells [of g]] by (simp add: set_cells)
  also have "\<dots> = nat (width g) * nat (height g)" by (simp add: cells_def length_product)
  finally show ?thesis using wf by (simp add: wf_game_def nat_mult_distrib)
qed

lemma exposed_bound:
  assumes inv: "game_inv g" and ne: "\<not> explosion g"
  shows "num_exposed_squares g \<le> width g * height g - num_mines g"
proof -
  note G = game_invD [OF inv]
  let ?B = "{c. in_board g c}"
  let ?E = "{c. in_board g c \<and> is_exposed g c}"
  let ?M = "{c. in_board g c \<and> is_mine g c}"
  have fin: "finite ?B" by (rule finite_board)
  have "?E \<subseteq> ?B - ?M" using G(6) ne by blast
  then have "card ?E \<le> card (?B - ?M)" using fin by (simp add: card_mono)
  also have "\<dots> = card ?B - card ?M" using fin by (intro card_Diff_subset) auto
  finally have "card ?E \<le> card ?B - card ?M" .
  moreover have "card ?M \<le> card ?B" using fin by (intro card_mono) auto
  ultimately have "int (card ?E) \<le> int (card ?B) - int (card ?M)" by linarith
  then show ?thesis using G(3,4) card_board [OF G(1)] by simp
qed

lemma move_post_distinct:
  assumes "move_post g x y squares g'"
  shows "distinct squares" "card (set squares) = length squares" "inj_on coord (set squares)"
proof -
  have d: "distinct (map coord squares)" using move_postD(12) [OF assms] .
  then show "distinct squares" by (simp add: distinct_map)
  then show "card (set squares) = length squares" by (rule distinct_card)
  show "inj_on coord (set squares)" using d by (simp add: distinct_map)
qed

lemma select_returns:
  assumes wf: "wf_game g" and s: "select g x y = Some (Inr m, g')"
  shows "\<exists>squares. m = MoveResult (status g') (set squares) \<and> move_post g x y squares g' \<and>
           in_board g (x, y) \<and> \<not> explosion g \<and> \<not> is_exposed g (x, y)"
proof -
  have c: "in_board g (x, y) \<and> \<not> explosion g \<and> \<not> is_exposed g (x, y)"
    using s select_outside [of g x y] select_over [of g x y] select_exposed [of g x y]
    by fastforce
  then obtain squares g2 where
    "select g x y = Some (Inr (MoveResult (status g2) (set squares)), g2)"
    "move_post g x y squares g2"
    using select_move_post [OF wf, of x y] by blast
  then show ?thesis using s c by auto
qed

lemma select_raises:
  assumes "select g x y = Some (Inl e, g')"
  shows "g' = g"
  using assms by (auto simp: select_def split: if_splits option.splits prod.splits)

lemma sym_adj_on: "sym (adj_on S)"
  by (auto simp: sym_def adj_on_def adjacent_sym)

lemma connected_from_start:
  assumes "\<forall>c\<in>S. (s, c) \<in> (adj_on S)\<^sup>*"
  shows "connected_region S"
  unfolding connected_region_def
proof (intro ballI)
  fix a b assume a: "a \<in> S" and b: "b \<in> S"
  have "(s, a) \<in> (adj_on S)\<^sup>*" using assms a by blast
  then have "(a, s) \<in> (adj_on S)\<^sup>*"
    using symD [OF sym_rtrancl [OF sym_adj_on, of S]] by blast
  moreover have "(s, b) \<in> (adj_on S)\<^sup>*" using assms b by blast
  ultimately show "(a, b) \<in> (adj_on S)\<^sup>*" by (rule rtrancl_trans)
qed

section \<open>The status\<close>

lemma status_PLAYING: "status g = PLAYING \<longleftrightarrow> \<not> game_over g"
  by (simp add: status_def)

lemma status_QUIT: "status g = QUIT \<longleftrightarrow> quit_flag g"
  by (simp add: status_def game_over_def)

lemma status_DEFEAT: "status g = DEFEAT \<longleftrightarrow> \<not> quit_flag g \<and> explosion g"
  by (simp add: status_def game_over_def)

lemma status_VICTORY:
  "status g = VICTORY \<longleftrightarrow>
     \<not> quit_flag g \<and> \<not> explosion g \<and> num_exposed_squares g = num_safe_squares g"
  by (auto simp: status_def game_over_def)

section \<open>The constructor\<close>

text \<open>A frame: two games that differ in their grid of counts only.\<close>

lemma counts_frame_derived:
  assumes "g' = g\<lparr>counts := cs\<rparr>"
  shows "in_board g' = in_board g" "is_mine g' = is_mine g" "is_exposed g' = is_exposed g"
    "cells g' = cells g" "neighbours g' = neighbours g" "neighbour_mines g' = neighbour_mines g"
    "mine_cells g' = mine_cells g" "exposed_cells g' = exposed_cells g"
    "is_outside_board g' = is_outside_board g"
proof -
  show b: "in_board g' = in_board g" using assms by (simp add: in_board_def fun_eq_iff)
  show m: "is_mine g' = is_mine g" using assms by (simp add: is_mine_def fun_eq_iff)
  show e: "is_exposed g' = is_exposed g" using assms by (simp add: is_exposed_def fun_eq_iff)
  show c: "cells g' = cells g" using assms by (simp add: cells_def)
  show n: "neighbours g' = neighbours g" by (simp add: neighbours_def fun_eq_iff b)
  show "neighbour_mines g' = neighbour_mines g" by (simp add: neighbour_mines_def fun_eq_iff n m)
  show "mine_cells g' = mine_cells g" by (simp add: mine_cells_def c m)
  show "exposed_cells g' = exposed_cells g" by (simp add: exposed_cells_def c e)
  show "is_outside_board g' = is_outside_board g"
    using assms by (simp add: is_outside_board_def fun_eq_iff)
qed

lemma init_counts_visit_eq:
  "init_counts_visit x y d g =
     (if d \<noteq> (0, 0) \<and> in_board g (x + fst d, y + snd d)
      then g\<lparr>counts := gset (counts g) x y
               (count_at g (x, y) + (if is_mine g (x + fst d, y + snd d) then 1 else 0))\<rparr>
      else g)"
  by (cases d) (simp add: init_counts_visit_def outside_iff count_at_def is_mine_def)

lemma count_at_gset:
  assumes "shape (width g) (height g) (counts g)" "in_board g (x, y)" "in_board g c"
  shows "count_at (g\<lparr>counts := gset (counts g) x y v\<rparr>) c = (if c = (x, y) then v else count_at g c)"
proof -
  have "gget (gset (counts g) x y v) (fst c) (snd c)
        = (if fst c = x \<and> snd c = y then v else gget (counts g) (fst c) (snd c))"
    using assms by (intro gget_gset [of "width g" "height g"]) (simp_all add: in_board_def)
  then show ?thesis by (cases c) (auto simp: count_at_def)
qed

lemma fold_counts_visit:
  assumes "shape (width g) (height g) (counts g)" "in_board g (x, y)"
  shows "\<exists>cs. fold (init_counts_visit x y) ds g = g\<lparr>counts := cs\<rparr> \<and>
           shape (width g) (height g) cs \<and>
           (\<forall>c. in_board g c \<longrightarrow>
              count_at (g\<lparr>counts := cs\<rparr>) c
              = count_at g c + (if c = (x, y) then visit_hits g (x, y) ds else 0))"
  using assms
proof (induction ds arbitrary: g)
  case Nil
  have "fold (init_counts_visit x y) [] g = g\<lparr>counts := counts g\<rparr>" by simp
  moreover have "\<forall>c. in_board g c \<longrightarrow>
              count_at (g\<lparr>counts := counts g\<rparr>) c
              = count_at g c + (if c = (x, y) then visit_hits g (x, y) [] else 0)"
    by (simp add: visit_hits_def)
  ultimately show ?case using Nil(1) by blast
next
  case (Cons d ds)
  let ?g1 = "init_counts_visit x y d g"
  let ?hit = "d \<noteq> (0, 0) \<and> in_board g (x + fst d, y + snd d)"
  let ?v = "count_at g (x, y) + (if is_mine g (x + fst d, y + snd d) then 1 else 0)"
  obtain c1 where g1: "?g1 = g\<lparr>counts := c1\<rparr>" and sh1: "shape (width g) (height g) c1"
    and c1: "\<forall>c. in_board g c \<longrightarrow> count_at (g\<lparr>counts := c1\<rparr>) c
               = count_at g c + (if c = (x, y) then visit_hits g (x, y) [d] else 0)"
  proof (cases ?hit)
    case True
    have "?g1 = g\<lparr>counts := gset (counts g) x y ?v\<rparr>"
      using True by (simp add: init_counts_visit_eq)
    moreover have "shape (width g) (height g) (gset (counts g) x y ?v)"
      using Cons.prems(1) by (rule shape_gset)
    moreover have "\<forall>c. in_board g c \<longrightarrow> count_at (g\<lparr>counts := gset (counts g) x y ?v\<rparr>) c
               = count_at g c + (if c = (x, y) then visit_hits g (x, y) [d] else 0)"
    proof (intro allI impI)
      fix c assume "in_board g c"
      then have "count_at (g\<lparr>counts := gset (counts g) x y ?v\<rparr>) c
                 = (if c = (x, y) then ?v else count_at g c)"
        by (rule count_at_gset [OF Cons.prems])
      moreover have "visit_hits g (x, y) [d] = (if is_mine g (x + fst d, y + snd d) then 1 else 0)"
        using True by (simp add: visit_hits_def)
      ultimately show "count_at (g\<lparr>counts := gset (counts g) x y ?v\<rparr>) c
               = count_at g c + (if c = (x, y) then visit_hits g (x, y) [d] else 0)"
        by simp
    qed
    ultimately show ?thesis using that by blast
  next
    case False
    have "?g1 = g" by (simp only: init_counts_visit_eq if_not_P [OF False])
    then have "?g1 = g\<lparr>counts := counts g\<rparr>" by simp
    moreover have "visit_hits g (x, y) [d] = 0" using False by (auto simp: visit_hits_def)
    then have "\<forall>c. in_board g c \<longrightarrow> count_at (g\<lparr>counts := counts g\<rparr>) c
               = count_at g c + (if c = (x, y) then visit_hits g (x, y) [d] else 0)"
      by simp
    ultimately show ?thesis using that Cons.prems(1) by blast
  qed
  note F = counts_frame_derived [OF g1]
  have p1: "shape (width ?g1) (height ?g1) (counts ?g1)" using sh1 by (simp add: g1)
  have p2: "in_board ?g1 (x, y)" using Cons.prems(2) by (simp add: F)
  obtain cs where r: "fold (init_counts_visit x y) ds ?g1 = ?g1\<lparr>counts := cs\<rparr>"
    and shr: "shape (width ?g1) (height ?g1) cs"
    and cr: "\<forall>c. in_board ?g1 c \<longrightarrow> count_at (?g1\<lparr>counts := cs\<rparr>) c
               = count_at ?g1 c + (if c = (x, y) then visit_hits ?g1 (x, y) ds else 0)"
    using Cons.IH [OF p1 p2] by blast
  have vh: "visit_hits ?g1 (x, y) ds = visit_hits g (x, y) ds" by (simp add: visit_hits_def F)
  have split: "visit_hits g (x, y) (d # ds) = visit_hits g (x, y) [d] + visit_hits g (x, y) ds"
    by (simp add: visit_hits_def)
  have e1: "?g1\<lparr>counts := cs\<rparr> = g\<lparr>counts := cs\<rparr>" by (simp add: g1)
  have "fold (init_counts_visit x y) (d # ds) g = g\<lparr>counts := cs\<rparr>" using r e1 by simp
  moreover have "shape (width g) (height g) cs" using shr by (simp add: g1)
  moreover have "\<forall>c. in_board g c \<longrightarrow> count_at (g\<lparr>counts := cs\<rparr>) c
              = count_at g c + (if c = (x, y) then visit_hits g (x, y) (d # ds) else 0)"
  proof (intro allI impI)
    fix c assume c: "in_board g c"
    have "in_board ?g1 c" using c by (simp add: F)
    then have "count_at (?g1\<lparr>counts := cs\<rparr>) c
          = count_at ?g1 c + (if c = (x, y) then visit_hits ?g1 (x, y) ds else 0)"
      using cr by blast
    then have "count_at (g\<lparr>counts := cs\<rparr>) c
          = count_at ?g1 c + (if c = (x, y) then visit_hits ?g1 (x, y) ds else 0)"
      by (simp only: e1)
    also have "count_at ?g1 c = count_at g c + (if c = (x, y) then visit_hits g (x, y) [d] else 0)"
    proof -
      have "count_at (g\<lparr>counts := c1\<rparr>) c
            = count_at g c + (if c = (x, y) then visit_hits g (x, y) [d] else 0)"
        using c1 c by blast
      then show ?thesis by (simp only: g1)
    qed
    finally show "count_at (g\<lparr>counts := cs\<rparr>) c
              = count_at g c + (if c = (x, y) then visit_hits g (x, y) (d # ds) else 0)"
      using vh split by simp
  qed
  ultimately show ?case by blast
qed

lemma visit_hits_offsets: "visit_hits g c offsets = neighbour_mines g c"
  by (simp add: visit_hits_def neighbour_mines_def neighbours_def filter_map comp_def)

lemma fold_init_counts:
  assumes "shape (width g) (height g) (counts g)" "distinct cs" "\<forall>c\<in>set cs. in_board g c"
  shows "\<exists>cn. fold (\<lambda>c g. fold (init_counts_visit (fst c) (snd c)) offsets g) cs g
                 = g\<lparr>counts := cn\<rparr> \<and>
           shape (width g) (height g) cn \<and>
           (\<forall>c. in_board g c \<longrightarrow>
              count_at (g\<lparr>counts := cn\<rparr>) c
              = count_at g c + (if c \<in> set cs then neighbour_mines g c else 0))"
  using assms
proof (induction cs arbitrary: g)
  case Nil
  have "fold (\<lambda>c g. fold (init_counts_visit (fst c) (snd c)) offsets g) [] g
          = g\<lparr>counts := counts g\<rparr>" by simp
  moreover have "\<forall>c. in_board g c \<longrightarrow>
              count_at (g\<lparr>counts := counts g\<rparr>) c
              = count_at g c + (if c \<in> set [] then neighbour_mines g c else 0)"
    by simp
  ultimately show ?case using Nil(1) by blast
next
  case (Cons a cs)
  let ?g1 = "fold (init_counts_visit (fst a) (snd a)) offsets g"
  have ab: "in_board g (fst a, snd a)" using Cons.prems(3) by simp
  obtain c1 where g1: "?g1 = g\<lparr>counts := c1\<rparr>" and sh1: "shape (width g) (height g) c1"
    and c1: "\<forall>c. in_board g c \<longrightarrow> count_at (g\<lparr>counts := c1\<rparr>) c
               = count_at g c + (if c = a then neighbour_mines g a else 0)"
  proof -
    obtain c1 where "?g1 = g\<lparr>counts := c1\<rparr>" "shape (width g) (height g) c1"
      "\<forall>c. in_board g c \<longrightarrow> count_at (g\<lparr>counts := c1\<rparr>) c
               = count_at g c + (if c = (fst a, snd a) then visit_hits g (fst a, snd a) offsets else 0)"
      using fold_counts_visit [OF Cons.prems(1) ab, of offsets] by blast
    then show ?thesis using that [of c1] visit_hits_offsets [of g a] by simp
  qed
  note F = counts_frame_derived [OF g1]
  have p1: "shape (width ?g1) (height ?g1) (counts ?g1)" using sh1 by (simp add: g1)
  have p2: "distinct cs" using Cons.prems(2) by simp
  have p3: "\<forall>c\<in>set cs. in_board ?g1 c" using Cons.prems(3) by (simp add: F)
  obtain cn where
    r: "fold (\<lambda>c g. fold (init_counts_visit (fst c) (snd c)) offsets g) cs ?g1 = ?g1\<lparr>counts := cn\<rparr>"
    and shr: "shape (width ?g1) (height ?g1) cn"
    and cr: "\<forall>c. in_board ?g1 c \<longrightarrow> count_at (?g1\<lparr>counts := cn\<rparr>) c
               = count_at ?g1 c + (if c \<in> set cs then neighbour_mines ?g1 c else 0)"
    using Cons.IH [OF p1 p2 p3] by blast
  have e1: "?g1\<lparr>counts := cn\<rparr> = g\<lparr>counts := cn\<rparr>" by (simp add: g1)
  have "fold (\<lambda>c g. fold (init_counts_visit (fst c) (snd c)) offsets g) (a # cs) g = g\<lparr>counts := cn\<rparr>"
    using r e1 by simp
  moreover have "shape (width g) (height g) cn" using shr by (simp add: g1)
  moreover have "\<forall>c. in_board g c \<longrightarrow> count_at (g\<lparr>counts := cn\<rparr>) c
              = count_at g c + (if c \<in> set (a # cs) then neighbour_mines g c else 0)"
  proof (intro allI impI)
    fix c assume c: "in_board g c"
    have "in_board ?g1 c" using c by (simp add: F)
    then have "count_at (?g1\<lparr>counts := cn\<rparr>) c
          = count_at ?g1 c + (if c \<in> set cs then neighbour_mines ?g1 c else 0)"
      using cr by blast
    then have "count_at (g\<lparr>counts := cn\<rparr>) c
          = count_at ?g1 c + (if c \<in> set cs then neighbour_mines g c else 0)"
      by (simp only: e1 F)
    also have "count_at ?g1 c = count_at g c + (if c = a then neighbour_mines g a else 0)"
    proof -
      have "count_at (g\<lparr>counts := c1\<rparr>) c
            = count_at g c + (if c = a then neighbour_mines g a else 0)" using c1 c by blast
      then show ?thesis by (simp only: g1)
    qed
    finally show "count_at (g\<lparr>counts := cn\<rparr>) c
              = count_at g c + (if c \<in> set (a # cs) then neighbour_mines g c else 0)"
      using Cons.prems(2) by (cases "c = a") simp_all
  qed
  ultimately show ?case by blast
qed

lemma init_counts_result:
  assumes "shape (width g) (height g) (counts g)"
  shows "\<exists>cn. init_counts g = g\<lparr>counts := cn\<rparr> \<and> shape (width g) (height g) cn \<and>
           (\<forall>c. in_board g c \<longrightarrow>
              count_at (g\<lparr>counts := cn\<rparr>) c = count_at g c + neighbour_mines g c)"
proof -
  have "\<forall>c\<in>set (cells g). in_board g c" by (simp add: set_cells)
  from fold_init_counts [OF assms distinct_cells this]
  obtain cn where "init_counts g = g\<lparr>counts := cn\<rparr>" "shape (width g) (height g) cn"
    "\<forall>c. in_board g c \<longrightarrow> count_at (g\<lparr>counts := cn\<rparr>) c
        = count_at g c + (if c \<in> set (cells g) then neighbour_mines g c else 0)"
    unfolding init_counts_def by blast
  then show ?thesis by (simp add: set_cells) blast
qed


lemma fresh_init_counts:
  assumes fr: "fresh g" and mc: "int (length (mine_cells g)) = num_mines g"
  shows "game_inv (init_counts g) \<and> num_moves (init_counts g) = 0 \<and>
         mines (init_counts g) = mines g \<and> width (init_counts g) = width g \<and>
         height (init_counts g) = height g \<and> num_mines (init_counts g) = num_mines g \<and>
         \<not> quit_flag (init_counts g) \<and> \<not> explosion (init_counts g) \<and>
         exposed_cells (init_counts g) = []"
proof -
  have shc: "shape (width g) (height g) (counts g)" using fr by (simp add: fresh_def shape_new_grid)
  obtain cn where ic: "init_counts g = g\<lparr>counts := cn\<rparr>" and shn: "shape (width g) (height g) cn"
    and cnt: "\<forall>c. in_board g c \<longrightarrow> count_at (g\<lparr>counts := cn\<rparr>) c = count_at g c + neighbour_mines g c"
    using init_counts_result [OF shc] by blast
  note F = counts_frame_derived [OF ic]
  have zero: "\<And>c. in_board g c \<Longrightarrow> count_at g c = 0"
    using fr by (simp add: fresh_def count_at_def in_board_def gget_new_grid)
  have unexp: "\<And>c. in_board g c \<Longrightarrow> \<not> is_exposed g c"
    using fr by (simp add: fresh_def is_exposed_def in_board_def gget_new_grid)
  have she: "shape (width g) (height g) (exposed g)" using fr by (simp add: fresh_def shape_new_grid)
  have inv: "game_inv (init_counts g)"
  proof (rule game_invI)
    show "wf_game (init_counts g)"
      using fr shn she by (simp add: ic wf_game_def fresh_def)
    show "\<forall>c. in_board (init_counts g) c \<longrightarrow>
            count_at (init_counts g) c = neighbour_mines (init_counts g) c"
      using cnt zero by (simp add: F) (simp add: ic)
    have em: "{c. in_board g c \<and> is_exposed g c} = {}" using unexp by blast
    have "num_exposed_squares (init_counts g) = 0" using fr by (simp add: ic fresh_def)
    then show "num_exposed_squares (init_counts g)
          = int (card {c. in_board (init_counts g) c \<and> is_exposed (init_counts g) c})"
      by (simp add: F em)
    show "int (card {c. in_board (init_counts g) c \<and> is_mine (init_counts g) c})
          = num_mines (init_counts g)"
      using mc by (simp add: F) (simp add: ic mine_cells_def length_filter_cells)
    show "num_safe_squares (init_counts g)
          = width (init_counts g) * height (init_counts g) - num_mines (init_counts g)"
      using fr by (simp add: ic fresh_def)
    have "\<not> explosion (init_counts g)" using fr by (simp add: ic fresh_def)
    moreover have "\<not> (\<exists>c. in_board g c \<and> is_exposed g c \<and> is_mine g c)" using unexp by blast
    ultimately show "explosion (init_counts g) \<longleftrightarrow>
          (\<exists>c. in_board (init_counts g) c \<and> is_exposed (init_counts g) c \<and> is_mine (init_counts g) c)"
      by (simp add: F)
  qed
  have "exposed_cells g = []" using unexp by (simp add: exposed_cells_def set_cells filter_empty_conv)
  then have "exposed_cells (init_counts g) = []" by (simp add: F)
  then show ?thesis using inv fr by (simp add: ic fresh_def)
qed

lemma place_loop_result:
  assumes "place_loop g locs rnd = Some res" "distinct locs" "int (length locs) \<le> num_mines g"
  shows "distinct res \<and> int (length res) = num_mines g \<and> set res \<subseteq> set locs \<union> set rnd"
  using assms
proof (induction rnd arbitrary: locs)
  case Nil
  then show ?case by (simp split: if_splits)
next
  case (Cons p rnd)
  show ?case
  proof (cases "int (length locs) < num_mines g")
    case True
    have r: "place_loop g (List.insert p locs) rnd = Some res" using Cons.prems(1) True by simp
    have d: "distinct (List.insert p locs)" using Cons.prems(2) by simp
    have "length (List.insert p locs) \<le> Suc (length locs)" by (simp add: List.insert_def)
    then have l: "int (length (List.insert p locs)) \<le> num_mines g" using True by linarith
    from Cons.IH [OF r d l] show ?thesis by auto
  next
    case False
    then show ?thesis using Cons.prems by auto
  qed
qed

lemma place_loop_some:
  assumes "distinct locs" "num_mines g \<le> int (card (set locs \<union> set rnd))"
  shows "\<exists>res. place_loop g locs rnd = Some res"
  using assms
proof (induction rnd arbitrary: locs)
  case Nil
  then show ?case by (simp add: distinct_card)
next
  case (Cons p rnd)
  have "set (List.insert p locs) \<union> set rnd = set locs \<union> set (p # rnd)" by auto
  then have "num_mines g \<le> int (card (set (List.insert p locs) \<union> set rnd))"
    using Cons.prems(2) by simp
  moreover have "distinct (List.insert p locs)" using Cons.prems(1) by simp
  ultimately have "\<exists>res. place_loop g (List.insert p locs) rnd = Some res" by (rule Cons.IH [rotated])
  then show ?case by simp
qed

lemma mines_frame_derived:
  assumes "g' = g\<lparr>mines := ms\<rparr>"
  shows "in_board g' = in_board g" "width g' = width g" "height g' = height g"
    "num_mines g' = num_mines g" "cells g' = cells g"
  using assms by (simp_all add: in_board_def fun_eq_iff cells_def)

lemma fold_place:
  assumes "shape (width g) (height g) (mines g)" "\<forall>l\<in>set locs. in_board g l"
  shows "\<exists>ms. fold (\<lambda>location g. g\<lparr>mines := gset (mines g) (fst location) (snd location) True\<rparr>)
                 locs g = g\<lparr>mines := ms\<rparr> \<and>
           shape (width g) (height g) ms \<and>
           (\<forall>c. in_board g c \<longrightarrow> is_mine (g\<lparr>mines := ms\<rparr>) c = (is_mine g c \<or> c \<in> set locs))"
  using assms
proof (induction locs arbitrary: g)
  case Nil
  have "fold (\<lambda>location g. g\<lparr>mines := gset (mines g) (fst location) (snd location) True\<rparr>) [] g
        = g\<lparr>mines := mines g\<rparr>" by simp
  moreover have "\<forall>c. in_board g c \<longrightarrow> is_mine (g\<lparr>mines := mines g\<rparr>) c = (is_mine g c \<or> c \<in> set [])"
    by simp
  ultimately show ?case using Nil(1) by blast
next
  case (Cons l locs)
  let ?f = "\<lambda>location g. g\<lparr>mines := gset (mines g) (fst location) (snd location) True\<rparr>"
  let ?g1 = "g\<lparr>mines := gset (mines g) (fst l) (snd l) True\<rparr>"
  have lb: "in_board g l" using Cons.prems(2) by simp
  have sh1: "shape (width ?g1) (height ?g1) (mines ?g1)"
    using Cons.prems(1) by (simp add: shape_gset)
  have b1: "\<forall>l\<in>set locs. in_board ?g1 l" using Cons.prems(2) by (simp add: in_board_def)
  have m1: "\<And>c. in_board g c \<Longrightarrow> is_mine ?g1 c = (c = l \<or> is_mine g c)"
  proof -
    fix c assume c: "in_board g c"
    have "gget (gset (mines g) (fst l) (snd l) True) (fst c) (snd c)
          = (if fst c = fst l \<and> snd c = snd l then True else gget (mines g) (fst c) (snd c))"
      using Cons.prems(1) lb c
      by (intro gget_gset [of "width g" "height g"]) (simp_all add: in_board_def)
    then show "is_mine ?g1 c = (c = l \<or> is_mine g c)"
      by (auto simp: is_mine_def prod_eq_iff)
  qed
  obtain ms where r: "fold ?f locs ?g1 = ?g1\<lparr>mines := ms\<rparr>"
    and shr: "shape (width ?g1) (height ?g1) ms"
    and mr: "\<forall>c. in_board ?g1 c \<longrightarrow> is_mine (?g1\<lparr>mines := ms\<rparr>) c = (is_mine ?g1 c \<or> c \<in> set locs)"
    using Cons.IH [OF sh1 b1] by blast
  have e1: "?g1\<lparr>mines := ms\<rparr> = g\<lparr>mines := ms\<rparr>" by simp
  have "fold ?f (l # locs) g = g\<lparr>mines := ms\<rparr>" using r e1 by simp
  moreover have "shape (width g) (height g) ms" using shr by simp
  moreover have "\<forall>c. in_board g c \<longrightarrow> is_mine (g\<lparr>mines := ms\<rparr>) c = (is_mine g c \<or> c \<in> set (l # locs))"
  proof (intro allI impI)
    fix c assume c: "in_board g c"
    then have "in_board ?g1 c" by (simp add: in_board_def)
    then have "is_mine (?g1\<lparr>mines := ms\<rparr>) c = (is_mine ?g1 c \<or> c \<in> set locs)" using mr by blast
    then have "is_mine (g\<lparr>mines := ms\<rparr>) c = (is_mine ?g1 c \<or> c \<in> set locs)" by (simp only: e1)
    then show "is_mine (g\<lparr>mines := ms\<rparr>) c = (is_mine g c \<or> c \<in> set (l # locs))"
      using m1 [OF c] by auto
  qed
  ultimately show ?case by blast
qed


lemma game_init_supplied_eq:
  "ms \<noteq> [] \<Longrightarrow> game_init config (Some ms) rnd = Some (init_counts (blank_game config ms))"
  by (simp add: game_init_def blank_game_def)

lemma game_init_random_eq:
  "mines_arg = None \<or> mines_arg = Some [] \<Longrightarrow>
   game_init config mines_arg rnd =
     map_option init_counts
       (place_mines (blank_game config (new_grid (cfg_width config) (cfg_height config) False)) rnd)"
  by (auto simp: game_init_def blank_game_def)

lemma fresh_blank:
  "0 \<le> cfg_width config \<Longrightarrow> 0 \<le> cfg_height config \<Longrightarrow>
   shape (cfg_width config) (cfg_height config) ms \<Longrightarrow> fresh (blank_game config ms)"
  by (simp add: fresh_def blank_game_def)

lemma blank_fields [simp]:
  "width (blank_game config ms) = cfg_width config"
  "height (blank_game config ms) = cfg_height config"
  "num_mines (blank_game config ms) = cfg_num_mines config"
  "mines (blank_game config ms) = ms"
  by (simp_all add: blank_game_def)

lemma mine_cells_layout:
  "length (mine_cells (blank_game config ms)) = layout_count (cfg_width config) (cfg_height config) ms"
  by (simp add: mine_cells_def layout_count_def cells_def is_mine_def cong: filter_cong)

lemma game_init_supplied:
  assumes "0 < cfg_width config" "0 < cfg_height config"
    and "shape (cfg_width config) (cfg_height config) ms"
    and "int (layout_count (cfg_width config) (cfg_height config) ms) = cfg_num_mines config"
  shows "\<exists>g. game_init config (Some ms) rnd = Some g \<and> constructed config g \<and> mines g = ms"
proof -
  let ?b = "blank_game config ms"
  have ne: "ms \<noteq> []" using assms(1,3) by (auto simp: shape_def)
  have fr: "fresh ?b" using assms by (intro fresh_blank) simp_all
  have mc: "int (length (mine_cells ?b)) = num_mines ?b" using assms(4) by (simp add: mine_cells_layout)
  from fresh_init_counts [OF fr mc] game_init_supplied_eq [OF ne, of config rnd]
  show ?thesis by (simp add: constructed_def)
qed

lemma place_mines_result:
  assumes fr: "fresh g" and n0: "0 \<le> num_mines g"
    and rg: "rnd_in_range (width g) (height g) rnd"
    and pm: "place_mines g rnd = Some g'"
    and em: "\<forall>c. in_board g c \<longrightarrow> \<not> is_mine g c"
  shows "fresh g' \<and> int (length (mine_cells g')) = num_mines g' \<and>
         width g' = width g \<and> height g' = height g \<and> num_mines g' = num_mines g"
proof -
  let ?f = "\<lambda>location g. g\<lparr>mines := gset (mines g) (fst location) (snd location) True\<rparr>"
  obtain locs where pl: "place_loop g [] rnd = Some locs" and g': "g' = fold ?f locs g"
    using pm by (auto simp: place_mines_def split: option.splits)
  have L: "distinct locs" "int (length locs) = num_mines g" "set locs \<subseteq> set rnd"
    using place_loop_result [OF pl] n0 by auto
  have rb: "\<forall>p\<in>set rnd. in_board g p"
    using rg by (auto simp: rnd_in_range_def list_all_iff in_board_def)
  have lb: "\<forall>l\<in>set locs. in_board g l" using L(3) rb by blast
  have shm: "shape (width g) (height g) (mines g)" using fr by (simp add: fresh_def)
  obtain ms where r: "fold ?f locs g = g\<lparr>mines := ms\<rparr>" and shr: "shape (width g) (height g) ms"
    and mr: "\<forall>c. in_board g c \<longrightarrow> is_mine (g\<lparr>mines := ms\<rparr>) c = (is_mine g c \<or> c \<in> set locs)"
    using fold_place [OF shm lb] by blast
  have ge: "g' = g\<lparr>mines := ms\<rparr>" using g' r by simp
  have "{c. in_board g c \<and> is_mine g' c} = set locs"
    using mr em lb by (auto simp: ge)
  then have "card {c. in_board g' c \<and> is_mine g' c} = length locs"
    using distinct_card [OF L(1)] by (simp add: mines_frame_derived [OF ge])
  then have "int (length (mine_cells g')) = num_mines g'"
    using L(2) by (simp add: mine_cells_def length_filter_cells ge)
  moreover have "fresh g'" using fr shr by (simp add: fresh_def ge)
  ultimately show ?thesis by (simp add: ge)
qed

lemma new_grid_no_mine:
  "in_board (blank_game config (new_grid (cfg_width config) (cfg_height config) False)) c \<Longrightarrow>
   \<not> is_mine (blank_game config (new_grid (cfg_width config) (cfg_height config) False)) c"
  by (simp add: in_board_def is_mine_def gget_new_grid)

lemma game_init_random:
  assumes "0 < cfg_width config" "0 < cfg_height config" "0 \<le> cfg_num_mines config"
    and "rnd_in_range (cfg_width config) (cfg_height config) rnd"
    and "mines_arg = None \<or> mines_arg = Some []"
    and "game_init config mines_arg rnd = Some g"
  shows "constructed config g"
proof -
  let ?b = "blank_game config (new_grid (cfg_width config) (cfg_height config) False)"
  obtain g1 where pm: "place_mines ?b rnd = Some g1" and g: "g = init_counts g1"
    using assms(6) game_init_random_eq [OF assms(5), of config rnd] by auto
  have fr: "fresh ?b" using assms(1,2) by (intro fresh_blank) (simp_all add: shape_new_grid)
  have "fresh g1 \<and> int (length (mine_cells g1)) = num_mines g1 \<and>
         width g1 = width ?b \<and> height g1 = height ?b \<and> num_mines g1 = num_mines ?b"
    using place_mines_result [OF fr _ _ pm] assms(3,4) new_grid_no_mine [of config] by simp
  then show ?thesis using fresh_init_counts [of g1] g by (simp add: constructed_def)
qed

lemma game_init_random_some:
  assumes "0 < cfg_width config" "0 < cfg_height config"
    and "cfg_num_mines config \<le> cfg_width config * cfg_height config"
  shows "\<exists>g. game_init config None
               (List.product [0..cfg_width config - 1] [0..cfg_height config - 1]) = Some g"
    and "rnd_in_range (cfg_width config) (cfg_height config)
               (List.product [0..cfg_width config - 1] [0..cfg_height config - 1])"
proof -
  let ?w = "cfg_width config" and ?h = "cfg_height config"
  let ?rnd = "List.product [0..?w - 1] [0..?h - 1]"
  let ?b = "blank_game config (new_grid ?w ?h False)"
  have "distinct ?rnd" by (simp add: distinct_product)
  then have "card (set ?rnd) = length ?rnd" by (rule distinct_card)
  also have "\<dots> = nat ?w * nat ?h" by (simp add: length_product)
  finally have "int (card (set ?rnd)) = ?w * ?h" using assms(1,2) by (simp add: nat_mult_distrib)
  then have "num_mines ?b \<le> int (card (set [] \<union> set ?rnd))" using assms(3) by simp
  then obtain locs where "place_loop ?b [] ?rnd = Some locs"
    using place_loop_some [of "[]" ?b ?rnd] by auto
  then have "\<exists>g1. place_mines ?b ?rnd = Some g1" by (simp add: place_mines_def)
  then show "\<exists>g. game_init config None ?rnd = Some g"
    using game_init_random_eq [of None config ?rnd] by auto
  show "rnd_in_range ?w ?h ?rnd" by (auto simp: rnd_in_range_def list_all_iff)
qed


section \<open>Sequences of calls keep the invariant\<close>

lemma constructed_post: "constructed config g \<Longrightarrow> construction_post config g"
  by (simp add: constructed_def construction_post_def game_inv_def)

lemma play_result:
  assumes "game_inv g" "play g ops = Some (g', n)"
  shows "game_inv g' \<and> num_moves g' = num_moves g + int n"
  using assms
proof (induction g ops arbitrary: g' n rule: play.induct)
  case (1 g)
  then show ?case by simp
next
  case (2 g ops)
  have "game_inv (quit g)" using "2.prems"(1) by (rule quit_game_inv)
  from "2.IH" [OF this] "2.prems"(2) show ?case by simp
next
  case (3 g x y ops)
  obtain r g1 where s: "select g x y = Some (r, g1)"
    using "3.prems"(2) by (auto split: option.splits)
  obtain n1 where p: "play g1 ops = Some (g', n1)"
    and n: "n = (case r of Inl e \<Rightarrow> n1 | Inr m \<Rightarrow> Suc n1)"
    using "3.prems"(2) s by (auto split: option.splits)
  have inv1: "game_inv g1" using select_game_inv [OF "3.prems"(1) s] .
  have IH: "game_inv g' \<and> num_moves g' = num_moves g1 + int n1"
    using "3.IH" [OF s refl inv1 p] .
  show ?case
  proof (cases r)
    case (Inl e)
    then have "g1 = g" using select_raises s by blast
    then show ?thesis using IH n Inl by simp
  next
    case (Inr m)
    then obtain squares where "move_post g x y squares g1"
      using select_returns [OF game_invD(1) [OF "3.prems"(1)], of x y m g1] s by blast
    then have "num_moves g1 = num_moves g + 1" by (rule move_postD(9))
    then show ?thesis using IH n Inr by simp
  qed
qed

lemma play_total:
  assumes "game_inv g"
  shows "\<exists>g' n. play g ops = Some (g', n)"
  using assms
proof (induction g ops rule: play.induct)
  case (1 g)
  then show ?case by simp
next
  case (2 g ops)
  then show ?case using quit_game_inv by simp
next
  case (3 g x y ops)
  obtain r g1 where s: "select g x y = Some (r, g1)"
    using select_total [OF game_invD(1) [OF "3.prems"]] by blast
  have "game_inv g1" using select_game_inv [OF "3.prems" s] .
  then obtain g' n where "play g1 ops = Some (g', n)" using "3.IH" [OF s refl] by blast
  then show ?case using s by simp
qed

lemma config3_facts:
  "0 < cfg_width config3 \<and> 0 < cfg_height config3 \<and> 0 \<le> cfg_num_mines config3 \<and>
   cfg_num_mines config3 < cfg_width config3 * cfg_height config3 \<and>
   shape (cfg_width config3) (cfg_height config3) layout3 \<and>
   int (layout_count (cfg_width config3) (cfg_height config3) layout3) = cfg_num_mines config3 \<and>
   rnd_in_range (cfg_width config3) (cfg_height config3) [(1, 1), (1, 1), (2, 0)]"
  by code_simp

lemma game_init_random3:
  "game_init config3 None [(1, 1), (1, 1), (2, 0)] =
     Some (board3\<lparr>counts := [[1, 1, 1], [1, 0, 1], [1, 1, 1]],
                  mines := [[False, False, False], [False, True, False], [False, False, False]]\<rparr>)"
  by code_simp

lemma constructed_board3: "constructed config3 board3"
proof -
  have "\<exists>g. game_init config3 (Some layout3) [] = Some g \<and> constructed config3 g \<and> mines g = layout3"
    using config3_facts by (intro game_init_supplied) simp_all
  then show ?thesis using game_init_board3 by simp
qed

lemma play_board3:
  "play board3 [Select 5 5, Select 0 0, Select 0 0] = Some (board3_after, 1)"
  by code_simp

section \<open>The passes of the solver\<close>

lemma set_ai_cells: "set (ai_cells ai) = {c. on_board ai c}"
  by (auto simp: ai_cells_def on_board_def)

lemma distinct_ai_cells: "distinct (ai_cells ai)"
  by (simp add: ai_cells_def distinct_product)

lemma finite_on_board: "finite {c. on_board ai c}"
  using finite_set [of "ai_cells ai"] by (simp only: set_ai_cells)

lemma finite_eq_set [simp]: "finite (eq_set s c)"
  by (simp add: eq_set_def)

lemma finite_eq_union: "finite (eq_union ai s)"
  by (simp add: eq_union_def finite_on_board)

lemma grid_upd_get:
  assumes "shape (ai_width ai) (ai_height ai) gr" "on_board ai c" "on_board ai c'"
  shows "gget (gset gr (fst c) (snd c) v) (fst c') (snd c') = (if c' = c then v else gget gr (fst c') (snd c'))"
proof -
  have "gget (gset gr (fst c) (snd c) v) (fst c') (snd c')
        = (if fst c' = fst c \<and> snd c' = snd c then v else gget gr (fst c') (snd c'))"
    using assms by (intro gget_gset [of "ai_width ai" "ai_height ai"]) (simp_all add: on_board_def)
  then show ?thesis by (simp add: prod_eq_iff)
qed

text \<open>One round of the second loop of \<^verbatim>\<open>find_mine\<close>.\<close>

lemma remove_mine_step:
  assumes sh: "eq_shape ai s" and c: "on_board ai c"
    and k: "m \<in> eq_set s c \<longrightarrow> eq_val s c \<noteq> None"
  shows "\<exists>s'. remove_mine m c s = Inr s' \<and> eq_shape ai s' \<and>
           (\<forall>c'. on_board ai c' \<longrightarrow>
              eq_set s' c' = (if c' = c then eq_set s c - {m} else eq_set s c') \<and>
              eq_val s' c' = (if c' = c \<and> m \<in> eq_set s c
                              then map_option (\<lambda>v. v - 1) (eq_val s c) else eq_val s c'))"
proof -
  obtain eqs vals where s: "s = (eqs, vals)" by (cases s)
  have she: "shape (ai_width ai) (ai_height ai) eqs" and shv: "shape (ai_width ai) (ai_height ai) vals"
    using sh by (simp_all add: eq_shape_def s)
  show ?thesis
  proof (cases "m \<in> eq_set s c")
    case False
    then have "remove_mine m c s = Inr s" by (simp add: remove_mine_def s eq_set_def)
    moreover have "\<forall>c'. on_board ai c' \<longrightarrow>
              eq_set s c' = (if c' = c then eq_set s c - {m} else eq_set s c') \<and>
              eq_val s c' = (if c' = c \<and> m \<in> eq_set s c
                              then map_option (\<lambda>v. v - 1) (eq_val s c) else eq_val s c')"
      using False by auto
    ultimately show ?thesis using sh by blast
  next
    case True
    then obtain v where v: "eq_val s c = Some v" using k by auto
    let ?e' = "gset eqs (fst c) (snd c) (removeAll m (gget eqs (fst c) (snd c)))"
    let ?v' = "gset vals (fst c) (snd c) (Some (v - 1))"
    have r: "remove_mine m c s = Inr (?e', ?v')"
      using True v by (simp add: remove_mine_def s eq_set_def eq_val_def)
    have "eq_shape ai (?e', ?v')" using she shv by (simp add: eq_shape_def shape_gset)
    moreover have "\<forall>c'. on_board ai c' \<longrightarrow>
              eq_set (?e', ?v') c' = (if c' = c then eq_set s c - {m} else eq_set s c') \<and>
              eq_val (?e', ?v') c' = (if c' = c \<and> m \<in> eq_set s c
                              then map_option (\<lambda>v. v - 1) (eq_val s c) else eq_val s c')"
    proof (intro allI impI)
      fix c' assume c': "on_board ai c'"
      show "eq_set (?e', ?v') c' = (if c' = c then eq_set s c - {m} else eq_set s c') \<and>
              eq_val (?e', ?v') c' = (if c' = c \<and> m \<in> eq_set s c
                              then map_option (\<lambda>v. v - 1) (eq_val s c) else eq_val s c')"
        using True v grid_upd_get [OF she c c'] grid_upd_get [OF shv c c']
        by (auto simp: eq_set_def eq_val_def s)
    qed
    ultimately show ?thesis using r by blast
  qed
qed

lemma remove_mine_cells:
  assumes "eq_shape ai s" "distinct cs" "\<forall>c\<in>set cs. on_board ai c"
    and "\<forall>c\<in>set cs. m \<in> eq_set s c \<longrightarrow> eq_val s c \<noteq> None"
  shows "\<exists>s'. fold_err (remove_mine m) cs s = Inr s' \<and> eq_shape ai s' \<and>
           (\<forall>c'. on_board ai c' \<longrightarrow>
              eq_set s' c' = (if c' \<in> set cs then eq_set s c' - {m} else eq_set s c') \<and>
              eq_val s' c' = (if c' \<in> set cs \<and> m \<in> eq_set s c'
                              then map_option (\<lambda>v. v - 1) (eq_val s c') else eq_val s c'))"
  using assms
proof (induction cs arbitrary: s)
  case Nil
  then show ?case by simp
next
  case (Cons c cs)
  have cb: "on_board ai c" using Cons.prems(3) by simp
  have ck: "m \<in> eq_set s c \<longrightarrow> eq_val s c \<noteq> None" using Cons.prems(4) by simp
  obtain s1 where r1: "remove_mine m c s = Inr s1" and sh1: "eq_shape ai s1"
    and e1: "\<forall>c'. on_board ai c' \<longrightarrow>
              eq_set s1 c' = (if c' = c then eq_set s c - {m} else eq_set s c') \<and>
              eq_val s1 c' = (if c' = c \<and> m \<in> eq_set s c
                              then map_option (\<lambda>v. v - 1) (eq_val s c) else eq_val s c')"
    using remove_mine_step [OF Cons.prems(1) cb ck] by blast
  have d: "distinct cs" and cn: "c \<notin> set cs" using Cons.prems(2) by simp_all
  have b: "\<forall>c\<in>set cs. on_board ai c" using Cons.prems(3) by simp
  have k1: "\<forall>c'\<in>set cs. m \<in> eq_set s1 c' \<longrightarrow> eq_val s1 c' \<noteq> None"
  proof
    fix c' assume c': "c' \<in> set cs"
    then have "c' \<noteq> c" "on_board ai c'" using cn b by auto
    then have "eq_set s1 c' = eq_set s c'" "eq_val s1 c' = eq_val s c'"
      using e1 [rule_format, of c'] by simp_all
    then show "m \<in> eq_set s1 c' \<longrightarrow> eq_val s1 c' \<noteq> None" using Cons.prems(4) c' by simp
  qed
  obtain s' where r: "fold_err (remove_mine m) cs s1 = Inr s'" and sh': "eq_shape ai s'"
    and e': "\<forall>c'. on_board ai c' \<longrightarrow>
              eq_set s' c' = (if c' \<in> set cs then eq_set s1 c' - {m} else eq_set s1 c') \<and>
              eq_val s' c' = (if c' \<in> set cs \<and> m \<in> eq_set s1 c'
                              then map_option (\<lambda>v. v - 1) (eq_val s1 c') else eq_val s1 c')"
    using Cons.IH [OF sh1 d b k1] by blast
  have "fold_err (remove_mine m) (c # cs) s = Inr s'" using r1 r by simp
  moreover have "\<forall>c'. on_board ai c' \<longrightarrow>
              eq_set s' c' = (if c' \<in> set (c # cs) then eq_set s c' - {m} else eq_set s c') \<and>
              eq_val s' c' = (if c' \<in> set (c # cs) \<and> m \<in> eq_set s c'
                              then map_option (\<lambda>v. v - 1) (eq_val s c') else eq_val s c')"
  proof (intro allI impI)
    fix c' assume c': "on_board ai c'"
    note A = e1 [rule_format, OF c'] and B = e' [rule_format, OF c']
    show "eq_set s' c' = (if c' \<in> set (c # cs) then eq_set s c' - {m} else eq_set s c') \<and>
              eq_val s' c' = (if c' \<in> set (c # cs) \<and> m \<in> eq_set s c'
                              then map_option (\<lambda>v. v - 1) (eq_val s c') else eq_val s c')"
    proof (cases "c' = c")
      case True
      then show ?thesis using A B cn by auto
    next
      case False
      then show ?thesis using A B by auto
    qed
  qed
  ultimately show ?case using sh' by blast
qed


lemma card_inter_insert:
  assumes "finite E"
  shows "int (card (E \<inter> insert m S)) = (if m \<in> E then 1 else 0) + int (card ((E - {m}) \<inter> S))"
proof (cases "m \<in> E")
  case True
  have "E \<inter> insert m S = insert m ((E - {m}) \<inter> S)" using True by auto
  moreover have "m \<notin> (E - {m}) \<inter> S" by simp
  moreover have "finite ((E - {m}) \<inter> S)" using assms by simp
  ultimately show ?thesis using True by simp
next
  case False
  then have "E \<inter> insert m S = (E - {m}) \<inter> S" by auto
  then show ?thesis using False by simp
qed

lemma keyedD: "keyed ai s \<Longrightarrow> on_board ai c \<Longrightarrow> eq_set s c \<noteq> {} \<Longrightarrow> \<exists>v. eq_val s c = Some v"
  unfolding keyed_def by blast

lemma remove_mines_all:
  assumes "eq_shape ai s" "keyed ai s"
  shows "\<exists>s'. fold_err (\<lambda>m. fold_err (remove_mine m) (ai_cells ai)) ms s = Inr s' \<and>
           eq_shape ai s' \<and> keyed ai s' \<and>
           (\<forall>c. on_board ai c \<longrightarrow>
              eq_set s' c = eq_set s c - set ms \<and>
              eq_val s' c = map_option (\<lambda>v. v - int (card (eq_set s c \<inter> set ms))) (eq_val s c))"
  using assms
proof (induction ms arbitrary: s)
  case Nil
  have "\<forall>c. eq_val s c = map_option (\<lambda>v. v - int (card (eq_set s c \<inter> set []))) (eq_val s c)"
    by (simp add: option.map_ident)
  then show ?case using Nil by simp
next
  case (Cons m ms)
  have k: "\<forall>c\<in>set (ai_cells ai). m \<in> eq_set s c \<longrightarrow> eq_val s c \<noteq> None"
  proof (intro ballI impI)
    fix c assume "c \<in> set (ai_cells ai)" and "m \<in> eq_set s c"
    then have "on_board ai c" "eq_set s c \<noteq> {}" by (auto simp: set_ai_cells)
    then show "eq_val s c \<noteq> None" using keyedD [OF Cons.prems(2)] by fastforce
  qed
  have b: "\<forall>c\<in>set (ai_cells ai). on_board ai c" by (simp add: set_ai_cells)
  obtain s1 where r1: "fold_err (remove_mine m) (ai_cells ai) s = Inr s1" and sh1: "eq_shape ai s1"
    and e1: "\<forall>c'. on_board ai c' \<longrightarrow>
              eq_set s1 c' = (if c' \<in> set (ai_cells ai) then eq_set s c' - {m} else eq_set s c') \<and>
              eq_val s1 c' = (if c' \<in> set (ai_cells ai) \<and> m \<in> eq_set s c'
                              then map_option (\<lambda>v. v - 1) (eq_val s c') else eq_val s c')"
    using remove_mine_cells [OF Cons.prems(1) distinct_ai_cells b k] by blast
  have E1: "\<And>c. on_board ai c \<Longrightarrow> eq_set s1 c = eq_set s c - {m}"
    and V1: "\<And>c. on_board ai c \<Longrightarrow>
               eq_val s1 c = (if m \<in> eq_set s c then map_option (\<lambda>v. v - 1) (eq_val s c) else eq_val s c)"
  proof -
    fix c assume c: "on_board ai c"
    note A = e1 [rule_format, OF c]
    show "eq_set s1 c = eq_set s c - {m}" using A c by (simp add: set_ai_cells)
    show "eq_val s1 c = (if m \<in> eq_set s c then map_option (\<lambda>v. v - 1) (eq_val s c) else eq_val s c)"
      using A c by (simp add: set_ai_cells)
  qed
  have k1: "keyed ai s1"
    unfolding keyed_def
  proof (intro allI impI)
    fix c assume c: "on_board ai c" and ne: "eq_set s1 c \<noteq> {}"
    then have "eq_set s c \<noteq> {}" using E1 [OF c] by auto
    then obtain v where "eq_val s c = Some v" using keyedD [OF Cons.prems(2) c] by blast
    then show "eq_val s1 c \<noteq> None" using V1 [OF c] by auto
  qed
  obtain s' where r: "fold_err (\<lambda>m. fold_err (remove_mine m) (ai_cells ai)) ms s1 = Inr s'"
    and sh': "eq_shape ai s'" and k': "keyed ai s'"
    and e': "\<forall>c. on_board ai c \<longrightarrow>
              eq_set s' c = eq_set s1 c - set ms \<and>
              eq_val s' c = map_option (\<lambda>v. v - int (card (eq_set s1 c \<inter> set ms))) (eq_val s1 c)"
    using Cons.IH [OF sh1 k1] by blast
  have "fold_err (\<lambda>m. fold_err (remove_mine m) (ai_cells ai)) (m # ms) s = Inr s'"
    using r1 r by simp
  moreover have "\<forall>c. on_board ai c \<longrightarrow>
              eq_set s' c = eq_set s c - set (m # ms) \<and>
              eq_val s' c = map_option (\<lambda>v. v - int (card (eq_set s c \<inter> set (m # ms)))) (eq_val s c)"
  proof (intro allI impI)
    fix c assume c: "on_board ai c"
    note A = E1 [OF c] and B = V1 [OF c] and C = e' [rule_format, OF c]
    note D = card_inter_insert [of "eq_set s c" m "set ms"]
    have 1: "eq_set s' c = eq_set s c - set (m # ms)" using A C by auto
    have 2: "eq_val s' c = map_option (\<lambda>v. v - int (card (eq_set s c \<inter> set (m # ms)))) (eq_val s c)"
    proof (cases "m \<in> eq_set s c")
      case True
      then have "eq_set s c \<noteq> {}" by auto
      then obtain v where v: "eq_val s c = Some v"
        using keyedD [OF Cons.prems(2) c] by blast
      show ?thesis using True v A B C D by simp
    next
      case False
      then have "eq_set s c - {m} = eq_set s c" by auto
      then show ?thesis using False A B C D by simp
    qed
    show "eq_set s' c = eq_set s c - set (m # ms) \<and>
              eq_val s' c = map_option (\<lambda>v. v - int (card (eq_set s c \<inter> set (m # ms)))) (eq_val s c)"
      using 1 2 by simp
  qed
  ultimately show ?case using sh' k' by blast
qed

text \<open>The second loop of \<^verbatim>\<open>find_safe\<close>.\<close>

lemma remove_safe_step:
  assumes sh: "eq_shape ai s" and c: "on_board ai c"
  shows "eq_shape ai (remove_safe p c s) \<and>
           (\<forall>c'. on_board ai c' \<longrightarrow>
              eq_set (remove_safe p c s) c' = (if c' = c then eq_set s c - {p} else eq_set s c') \<and>
              eq_val (remove_safe p c s) c' = eq_val s c')"
proof -
  obtain eqs vals where s: "s = (eqs, vals)" by (cases s)
  have she: "shape (ai_width ai) (ai_height ai) eqs" and shv: "shape (ai_width ai) (ai_height ai) vals"
    using sh by (simp_all add: eq_shape_def s)
  show ?thesis
  proof (cases "p \<in> eq_set s c")
    case False
    then have "remove_safe p c s = s" by (simp add: remove_safe_def s eq_set_def)
    then show ?thesis using sh False by auto
  next
    case True
    let ?e' = "gset eqs (fst c) (snd c) (removeAll p (gget eqs (fst c) (snd c)))"
    have r: "remove_safe p c s = (?e', vals)"
      using True by (simp add: remove_safe_def s eq_set_def)
    have "eq_shape ai (?e', vals)" using she shv by (simp add: eq_shape_def shape_gset)
    moreover have "\<forall>c'. on_board ai c' \<longrightarrow>
              eq_set (?e', vals) c' = (if c' = c then eq_set s c - {p} else eq_set s c') \<and>
              eq_val (?e', vals) c' = eq_val s c'"
    proof (intro allI impI)
      fix c' assume c': "on_board ai c'"
      show "eq_set (?e', vals) c' = (if c' = c then eq_set s c - {p} else eq_set s c') \<and>
              eq_val (?e', vals) c' = eq_val s c'"
        using grid_upd_get [OF she c c'] by (auto simp: eq_set_def eq_val_def s)
    qed
    ultimately show ?thesis using r by simp
  qed
qed

lemma remove_safe_cells:
  assumes "eq_shape ai s" "\<forall>c\<in>set cs. on_board ai c"
  shows "eq_shape ai (fold (remove_safe p) cs s) \<and>
           (\<forall>c'. on_board ai c' \<longrightarrow>
              eq_set (fold (remove_safe p) cs s) c'
                = (if c' \<in> set cs then eq_set s c' - {p} else eq_set s c') \<and>
              eq_val (fold (remove_safe p) cs s) c' = eq_val s c')"
  using assms
proof (induction cs arbitrary: s)
  case Nil
  then show ?case by simp
next
  case (Cons c cs)
  have cb: "on_board ai c" using Cons.prems(2) by simp
  note S = remove_safe_step [OF Cons.prems(1) cb, of p]
  have b: "\<forall>c\<in>set cs. on_board ai c" using Cons.prems(2) by simp
  note I = Cons.IH [OF conjunct1 [OF S] b]
  show ?case
  proof (intro conjI allI impI)
    show "eq_shape ai (fold (remove_safe p) (c # cs) s)" using I by simp
  next
    fix c' assume c': "on_board ai c'"
    note A = S [THEN conjunct2, rule_format, OF c'] and B = I [THEN conjunct2, rule_format, OF c']
    show "eq_set (fold (remove_safe p) (c # cs) s) c'
                = (if c' \<in> set (c # cs) then eq_set s c' - {p} else eq_set s c')"
      using A B by auto
    show "eq_val (fold (remove_safe p) (c # cs) s) c' = eq_val s c'" using A B by simp
  qed
qed

lemma remove_safes_all:
  assumes "eq_shape ai s"
  shows "eq_shape ai (fold (\<lambda>p. fold (remove_safe p) (ai_cells ai)) ps s) \<and>
           (\<forall>c. on_board ai c \<longrightarrow>
              eq_set (fold (\<lambda>p. fold (remove_safe p) (ai_cells ai)) ps s) c = eq_set s c - set ps \<and>
              eq_val (fold (\<lambda>p. fold (remove_safe p) (ai_cells ai)) ps s) c = eq_val s c)"
  using assms
proof (induction ps arbitrary: s)
  case Nil
  then show ?case by simp
next
  case (Cons p ps)
  have b: "\<forall>c\<in>set (ai_cells ai). on_board ai c" by (simp add: set_ai_cells)
  note S = remove_safe_cells [OF Cons.prems b, of p]
  note I = Cons.IH [OF conjunct1 [OF S]]
  show ?case
  proof (intro conjI allI impI)
    show "eq_shape ai (fold (\<lambda>p. fold (remove_safe p) (ai_cells ai)) (p # ps) s)" using I by simp
  next
    fix c assume c: "on_board ai c"
    note A = S [THEN conjunct2, rule_format, OF c] and B = I [THEN conjunct2, rule_format, OF c]
    show "eq_set (fold (\<lambda>p. fold (remove_safe p) (ai_cells ai)) (p # ps) s) c = eq_set s c - set (p # ps)"
      using A B c by (auto simp: set_ai_cells)
    show "eq_val (fold (\<lambda>p. fold (remove_safe p) (ai_cells ai)) (p # ps) s) c = eq_val s c"
      using A B by simp
  qed
qed

text \<open>The first loops: the candidates collected.\<close>

lemma set_fold_insert: "set (fold List.insert xs ys) = set xs \<union> set ys"
  by (induction xs arbitrary: ys) auto

lemma set_fold_collect:
  "set (fold (\<lambda>c found. if P c then fold List.insert (X c) found else found) cs acc)
     = set acc \<union> (\<Union>c\<in>{c \<in> set cs. P c}. set (X c))"
  by (induction cs arbitrary: acc) (auto simp: set_fold_insert)

lemma if_if_conj: "(if A then (if B then x else y) else y) = (if A \<and> B then x else y)"
  by simp

lemma set_mine_candidates:
  "set (mine_candidates ai s)
     = (\<Union>c\<in>{c. on_board ai c \<and> truthy (eq_val s c) \<and>
                  eq_val s c = Some (int (card (eq_set s c)))}. eq_set s c)"
proof -
  obtain eqs vals where s: "s = (eqs, vals)" by (cases s)
  have "mine_candidates ai s =
        fold (\<lambda>c found. if truthy (eq_val s c) \<and> eq_val s c = Some (int (card (eq_set s c)))
                         then fold List.insert (gget eqs (fst c) (snd c)) found else found)
          (ai_cells ai) []"
    by (simp only: mine_candidates_def s eq_val_def eq_set_def prod.case fst_conv snd_conv if_if_conj)
  then show ?thesis
    by (simp add: set_fold_collect [where X = "\<lambda>c. gget eqs (fst c) (snd c)"] set_ai_cells eq_set_def s)
qed

lemma set_safe_candidates:
  "set (safe_candidates ai s)
     = (\<Union>c\<in>{c. on_board ai c \<and> eq_val s c = Some 0}. eq_set s c)"
proof -
  obtain eqs vals where s: "s = (eqs, vals)" by (cases s)
  have "safe_candidates ai s =
        fold (\<lambda>c found. if eq_val s c = Some 0
                         then fold List.insert (gget eqs (fst c) (snd c)) found else found)
          (ai_cells ai) []"
    by (simp add: safe_candidates_def s eq_val_def)
  then show ?thesis
    by (simp add: set_fold_collect [where X = "\<lambda>c. gget eqs (fst c) (snd c)"] set_ai_cells eq_set_def s)
qed


lemma find_mine_result:
  assumes sh: "eq_shape ai s" and k: "keyed ai s"
  shows "\<exists>s1 mn. find_mine ai s mo = Inr (s1, mn) \<and>
           set mn = set (mine_candidates ai s) \<union> set mo \<and>
           eq_shape ai s1 \<and> keyed ai s1 \<and>
           (\<forall>c. on_board ai c \<longrightarrow>
              eq_set s1 c = eq_set s c - set (mine_candidates ai s) \<and>
              eq_val s1 c = map_option (\<lambda>v. v - int (card (eq_set s c \<inter> set (mine_candidates ai s))))
                              (eq_val s c))"
proof -
  obtain s1 where "fold_err (\<lambda>m. fold_err (remove_mine m) (ai_cells ai)) (mine_candidates ai s) s = Inr s1"
    and "eq_shape ai s1" "keyed ai s1"
    and "\<forall>c. on_board ai c \<longrightarrow>
              eq_set s1 c = eq_set s c - set (mine_candidates ai s) \<and>
              eq_val s1 c = map_option (\<lambda>v. v - int (card (eq_set s c \<inter> set (mine_candidates ai s))))
                              (eq_val s c)"
    using remove_mines_all [OF sh k, of "mine_candidates ai s"] by blast
  moreover from this(1)
  have "find_mine ai s mo = Inr (s1, fold List.insert mo (mine_candidates ai s))"
    by (simp add: find_mine_def Let_def)
  moreover have "set (fold List.insert mo (mine_candidates ai s)) = set (mine_candidates ai s) \<union> set mo"
    by (auto simp: set_fold_insert)
  ultimately show ?thesis by blast
qed

lemma find_safe_result:
  assumes sh: "eq_shape ai s"
  shows "\<exists>s2 sn. find_safe ai s so = (s2, sn) \<and>
           set sn = set (safe_candidates ai s) \<union> set so \<and>
           eq_shape ai s2 \<and>
           (\<forall>c. on_board ai c \<longrightarrow>
              eq_set s2 c = eq_set s c - set (safe_candidates ai s) \<and> eq_val s2 c = eq_val s c)"
proof -
  let ?s2 = "fold (\<lambda>p. fold (remove_safe p) (ai_cells ai)) (safe_candidates ai s) s"
  have "find_safe ai s so = (?s2, fold List.insert so (safe_candidates ai s))"
    by (simp add: find_safe_def Let_def)
  moreover have "set (fold List.insert so (safe_candidates ai s)) = set (safe_candidates ai s) \<union> set so"
    by (auto simp: set_fold_insert)
  ultimately show ?thesis using remove_safes_all [OF sh, of "safe_candidates ai s"] by blast
qed

lemma mine_candidates_subset: "set (mine_candidates ai s) \<subseteq> eq_union ai s"
  by (auto simp: set_mine_candidates eq_union_def)

lemma safe_candidates_subset: "set (safe_candidates ai s) \<subseteq> eq_union ai s"
  by (auto simp: set_safe_candidates eq_union_def)

lemma eq_union_removed:
  assumes "\<forall>c. on_board ai c \<longrightarrow> eq_set s' c = eq_set s c - R"
  shows "eq_union ai s' = eq_union ai s - R"
  using assms by (auto simp: eq_union_def)

lemma keyed_removed:
  assumes "keyed ai s" and "\<forall>c. on_board ai c \<longrightarrow> eq_set s' c = eq_set s c - R \<and> eq_val s' c = eq_val s c"
  shows "keyed ai s'"
  unfolding keyed_def
proof (intro allI impI)
  fix c assume c: "on_board ai c" and ne: "eq_set s' c \<noteq> {}"
  have "eq_set s' c = eq_set s c - R" "eq_val s' c = eq_val s c" using assms(2) c by blast+
  then show "eq_val s' c \<noteq> None" using keyedD [OF assms(1) c] ne by auto
qed

text \<open>One pass of the loop of \<^verbatim>\<open>find_safe_and_mine\<close>.\<close>

lemma pass_result:
  assumes sh: "eq_shape ai s" and k: "keyed ai s"
  shows "\<exists>s1 mn s2 sn.
           find_mine ai s mo = Inr (s1, mn) \<and> find_safe ai s1 so = (s2, sn) \<and>
           set mn = set (mine_candidates ai s) \<union> set mo \<and>
           set sn = set (safe_candidates ai s1) \<union> set so \<and>
           eq_shape ai s1 \<and> keyed ai s1 \<and> eq_shape ai s2 \<and> keyed ai s2 \<and>
           eq_union ai s1 = eq_union ai s - set (mine_candidates ai s) \<and>
           eq_union ai s2 = eq_union ai s1 - set (safe_candidates ai s1)"
proof -
  obtain s1 mn where fm: "find_mine ai s mo = Inr (s1, mn)"
    and mn: "set mn = set (mine_candidates ai s) \<union> set mo"
    and sh1: "eq_shape ai s1" and k1: "keyed ai s1"
    and e1: "\<forall>c. on_board ai c \<longrightarrow>
              eq_set s1 c = eq_set s c - set (mine_candidates ai s) \<and>
              eq_val s1 c = map_option (\<lambda>v. v - int (card (eq_set s c \<inter> set (mine_candidates ai s))))
                              (eq_val s c)"
    using find_mine_result [OF sh k, of mo] by blast
  obtain s2 sn where fs: "find_safe ai s1 so = (s2, sn)"
    and sn: "set sn = set (safe_candidates ai s1) \<union> set so"
    and sh2: "eq_shape ai s2"
    and e2: "\<forall>c. on_board ai c \<longrightarrow>
              eq_set s2 c = eq_set s1 c - set (safe_candidates ai s1) \<and> eq_val s2 c = eq_val s1 c"
    using find_safe_result [OF sh1, of so] by blast
  have u1: "eq_union ai s1 = eq_union ai s - set (mine_candidates ai s)"
    using e1 by (intro eq_union_removed) blast
  have u2: "eq_union ai s2 = eq_union ai s1 - set (safe_candidates ai s1)"
    using e2 by (intro eq_union_removed) blast
  have k2: "keyed ai s2" using keyed_removed [OF k1 e2] .
  show ?thesis using fm fs mn sn sh1 k1 sh2 k2 u1 u2 by blast
qed

lemma diff_psubset:
  assumes "A \<subseteq> U" "B \<subseteq> U - A" "A \<noteq> {} \<or> B \<noteq> {}"
  shows "U - A - B \<subset> U"
proof -
  from assms(3) obtain x where "x \<in> A \<or> x \<in> B" by auto
  then have "x \<in> U" "x \<notin> U - A - B" using assms(1,2) by auto
  then show ?thesis by auto
qed

lemma fsm_passes_terminates:
  assumes "eq_shape ai s" "keyed ai s" "card (eq_union ai s) < n"
  shows "\<exists>mn sn. fsm_passes n ai s mo so = Some (Inr (mn, sn)) \<and>
           set mn \<subseteq> set mo \<union> eq_union ai s \<and> set sn \<subseteq> set so \<union> eq_union ai s \<and>
           set mo \<subseteq> set mn \<and> set so \<subseteq> set sn"
  using assms
proof (induction n arbitrary: s mo so)
  case 0
  then show ?case by simp
next
  case (Suc n)
  obtain s1 mn1 s2 sn1 where fm: "find_mine ai s mo = Inr (s1, mn1)"
    and fs: "find_safe ai s1 so = (s2, sn1)"
    and mn: "set mn1 = set (mine_candidates ai s) \<union> set mo"
    and sn: "set sn1 = set (safe_candidates ai s1) \<union> set so"
    and sh2: "eq_shape ai s2" and k2: "keyed ai s2"
    and u1: "eq_union ai s1 = eq_union ai s - set (mine_candidates ai s)"
    and u2: "eq_union ai s2 = eq_union ai s1 - set (safe_candidates ai s1)"
    using pass_result [OF Suc.prems(1,2), of mo so] by blast
  have mc: "set (mine_candidates ai s) \<subseteq> eq_union ai s" by (rule mine_candidates_subset)
  have sc: "set (safe_candidates ai s1) \<subseteq> eq_union ai s1" by (rule safe_candidates_subset)
  show ?case
  proof (cases "set mn1 = set mo \<and> set sn1 = set so")
    case True
    then have "fsm_passes (Suc n) ai s mo so = Some (Inr (mn1, sn1))" using fm fs by simp
    then show ?thesis using True by auto
  next
    case False
    have r: "fsm_passes (Suc n) ai s mo so = fsm_passes n ai s2 mn1 sn1"
      using fm fs by (simp add: if_not_P [OF False])
    have "set (mine_candidates ai s) \<noteq> {} \<or> set (safe_candidates ai s1) \<noteq> {}"
      using False mn sn by auto
    then have "eq_union ai s2 \<subset> eq_union ai s"
      using diff_psubset [of "set (mine_candidates ai s)" "eq_union ai s" "set (safe_candidates ai s1)"]
        mc sc u1 u2 by simp
    then have "card (eq_union ai s2) < card (eq_union ai s)"
      using finite_eq_union [of ai s] by (simp add: psubset_card_mono)
    then have c: "card (eq_union ai s2) < n" using Suc.prems(3) by simp
    obtain mn' sn' where res: "fsm_passes n ai s2 mn1 sn1 = Some (Inr (mn', sn'))"
      and a: "set mn' \<subseteq> set mn1 \<union> eq_union ai s2" "set sn' \<subseteq> set sn1 \<union> eq_union ai s2"
        "set mn1 \<subseteq> set mn'" "set sn1 \<subseteq> set sn'"
      using Suc.IH [OF sh2 k2 c, of mn1 sn1] by blast
    have "eq_union ai s2 \<subseteq> eq_union ai s" "eq_union ai s1 \<subseteq> eq_union ai s" using u1 u2 by auto
    then have "set mn' \<subseteq> set mo \<union> eq_union ai s \<and> set sn' \<subseteq> set so \<union> eq_union ai s \<and>
           set mo \<subseteq> set mn' \<and> set so \<subseteq> set sn'"
      using a mn sn mc sc by blast
    then show ?thesis using r res by simp
  qed
qed

lemma fsm_passes_loop:
  "fsm_passes n ai s mo so = Some r \<Longrightarrow> fsm_loop ai s mo so = Some r"
proof (induction n arbitrary: s mo so)
  case 0
  then show ?case by simp
next
  case (Suc n)
  show ?case
  proof (cases "find_mine ai s mo")
    case (Inl e)
    then show ?thesis using Suc.prems by (subst fsm_loop.simps) simp
  next
    case (Inr a)
    obtain s1 mn1 where a: "a = (s1, mn1)" by (cases a)
    obtain s2 sn1 where fs: "find_safe ai s1 so = (s2, sn1)" by (cases "find_safe ai s1 so")
    show ?thesis
    proof (cases "set mn1 = set mo \<and> set sn1 = set so")
      case True
      then show ?thesis using Suc.prems Inr a fs by (subst fsm_loop.simps) simp
    next
      case False
      have "fsm_passes n ai s2 mn1 sn1 = Some r"
        using Suc.prems Inr a fs by (simp add: if_not_P [OF False])
      then have "fsm_loop ai s2 mn1 sn1 = Some r" by (rule Suc.IH)
      then show ?thesis using Inr a fs by (subst fsm_loop.simps) (simp add: if_not_P [OF False])
    qed
  qed
qed


lemma sound_forD:
  "sound_for ai M s \<Longrightarrow> on_board ai c \<Longrightarrow> eq_set s c \<noteq> {} \<Longrightarrow>
     eq_val s c = Some (int (card (eq_set s c \<inter> M)))"
  unfolding sound_for_def by blast

lemma sound_keyed: "sound_for ai M s \<Longrightarrow> keyed ai s"
  unfolding keyed_def using sound_forD by fastforce

lemma mine_candidates_sound:
  assumes "sound_for ai M s"
  shows "set (mine_candidates ai s) \<subseteq> M"
proof
  fix x assume "x \<in> set (mine_candidates ai s)"
  then obtain c where c: "on_board ai c" "eq_val s c = Some (int (card (eq_set s c)))"
    and x: "x \<in> eq_set s c" by (auto simp: set_mine_candidates)
  have "eq_set s c \<noteq> {}" using x by auto
  then have "eq_val s c = Some (int (card (eq_set s c \<inter> M)))" using sound_forD [OF assms c(1)] by simp
  then have "card (eq_set s c \<inter> M) = card (eq_set s c)" using c(2) by simp
  moreover have "eq_set s c \<inter> M \<subseteq> eq_set s c" by blast
  ultimately have "eq_set s c \<inter> M = eq_set s c"
    using card_subset_eq [of "eq_set s c" "eq_set s c \<inter> M"] by simp
  then show "x \<in> M" using x by blast
qed

lemma safe_candidates_sound:
  assumes "sound_for ai M s"
  shows "set (safe_candidates ai s) \<inter> M = {}"
proof -
  have "\<And>x. x \<in> set (safe_candidates ai s) \<Longrightarrow> x \<notin> M"
  proof -
    fix x assume "x \<in> set (safe_candidates ai s)"
    then obtain c where c: "on_board ai c" "eq_val s c = Some 0"
      and x: "x \<in> eq_set s c" by (auto simp: set_safe_candidates)
    have "eq_set s c \<noteq> {}" using x by auto
    then have "eq_val s c = Some (int (card (eq_set s c \<inter> M)))" using sound_forD [OF assms c(1)] by simp
    then have "card (eq_set s c \<inter> M) = 0" using c(2) by simp
    then have "eq_set s c \<inter> M = {}" by simp
    then show "x \<notin> M" using x by blast
  qed
  then show ?thesis by blast
qed

lemma sound_after_mines:
  assumes snd: "sound_for ai M s" and R: "R \<subseteq> M"
    and e: "\<forall>c. on_board ai c \<longrightarrow>
              eq_set s1 c = eq_set s c - R \<and>
              eq_val s1 c = map_option (\<lambda>v. v - int (card (eq_set s c \<inter> R))) (eq_val s c)"
  shows "sound_for ai M s1"
  unfolding sound_for_def
proof (intro allI impI)
  fix c assume c: "on_board ai c" and ne: "eq_set s1 c \<noteq> {}"
  let ?E = "eq_set s c"
  have E1: "eq_set s1 c = ?E - R"
    and V1: "eq_val s1 c = map_option (\<lambda>v. v - int (card (?E \<inter> R))) (eq_val s c)"
    using e c by blast+
  have "?E \<noteq> {}" using ne E1 by auto
  then have V: "eq_val s c = Some (int (card (?E \<inter> M)))" using sound_forD [OF snd c] by simp
  have sub: "?E \<inter> R \<subseteq> ?E \<inter> M" using R by blast
  have "(?E - R) \<inter> M = (?E \<inter> M) - (?E \<inter> R)" by blast
  then have "card ((?E - R) \<inter> M) = card (?E \<inter> M) - card (?E \<inter> R)"
    using sub by (simp add: card_Diff_subset)
  moreover have "card (?E \<inter> R) \<le> card (?E \<inter> M)" using sub by (simp add: card_mono)
  ultimately have "int (card ((?E - R) \<inter> M)) = int (card (?E \<inter> M)) - int (card (?E \<inter> R))"
    by simp
  then show "eq_val s1 c = Some (int (card (eq_set s1 c \<inter> M)))" using V V1 E1 by simp
qed

lemma sound_after_safes:
  assumes snd: "sound_for ai M s" and R: "R \<inter> M = {}"
    and e: "\<forall>c. on_board ai c \<longrightarrow> eq_set s2 c = eq_set s c - R \<and> eq_val s2 c = eq_val s c"
  shows "sound_for ai M s2"
  unfolding sound_for_def
proof (intro allI impI)
  fix c assume c: "on_board ai c" and ne: "eq_set s2 c \<noteq> {}"
  have E2: "eq_set s2 c = eq_set s c - R" and V2: "eq_val s2 c = eq_val s c" using e c by blast+
  have "eq_set s c \<noteq> {}" using ne E2 by auto
  then have "eq_val s c = Some (int (card (eq_set s c \<inter> M)))" using sound_forD [OF snd c] by simp
  moreover have "(eq_set s c - R) \<inter> M = eq_set s c \<inter> M" using R by blast
  ultimately show "eq_val s2 c = Some (int (card (eq_set s2 c \<inter> M)))" using E2 V2 by simp
qed

lemma pass_sound:
  assumes sh: "eq_shape ai s" and snd: "sound_for ai M s"
    and fm: "find_mine ai s mo = Inr (s1, mn)" and fs: "find_safe ai s1 so = (s2, sn)"
    and mo: "set mo \<subseteq> M" and so: "set so \<inter> M = {}"
  shows "eq_shape ai s2 \<and> sound_for ai M s2 \<and> set mn \<subseteq> M \<and> set sn \<inter> M = {}"
proof -
  obtain s1' mn' where fm': "find_mine ai s mo = Inr (s1', mn')"
    and mn: "set mn' = set (mine_candidates ai s) \<union> set mo"
    and sh1: "eq_shape ai s1'"
    and e1: "\<forall>c. on_board ai c \<longrightarrow>
              eq_set s1' c = eq_set s c - set (mine_candidates ai s) \<and>
              eq_val s1' c = map_option (\<lambda>v. v - int (card (eq_set s c \<inter> set (mine_candidates ai s))))
                              (eq_val s c)"
    using find_mine_result [OF sh sound_keyed [OF snd], of mo] by blast
  have eq1: "s1' = s1" "mn' = mn" using fm fm' by simp_all
  have mc: "set (mine_candidates ai s) \<subseteq> M" using mine_candidates_sound [OF snd] .
  have snd1: "sound_for ai M s1" using sound_after_mines [OF snd mc e1] eq1 by simp
  obtain s2' sn' where fs': "find_safe ai s1 so = (s2', sn')"
    and sn: "set sn' = set (safe_candidates ai s1) \<union> set so"
    and sh2: "eq_shape ai s2'"
    and e2: "\<forall>c. on_board ai c \<longrightarrow>
              eq_set s2' c = eq_set s1 c - set (safe_candidates ai s1) \<and> eq_val s2' c = eq_val s1 c"
    using find_safe_result [of ai s1 so] sh1 eq1 by blast
  have eq2: "s2' = s2" "sn' = sn" using fs fs' by simp_all
  have sc: "set (safe_candidates ai s1) \<inter> M = {}" using safe_candidates_sound [OF snd1] .
  have snd2: "sound_for ai M s2" using sound_after_safes [OF snd1 sc e2] eq2 by simp
  have "set mn \<subseteq> M" using mn mc mo eq1 by auto
  moreover have "set sn \<inter> M = {}" using sn sc so eq2 by auto
  ultimately show ?thesis using sh2 snd2 eq2 by simp
qed

lemma fsm_passes_sound:
  assumes "fsm_passes n ai s mo so = Some (Inr (mn, sn))"
    and "eq_shape ai s" "sound_for ai M s" "set mo \<subseteq> M" "set so \<inter> M = {}"
  shows "set mn \<subseteq> M \<and> set sn \<inter> M = {}"
  using assms
proof (induction n arbitrary: s mo so)
  case 0
  then show ?case by simp
next
  case (Suc n)
  obtain s1 mn1 s2 sn1 where fm: "find_mine ai s mo = Inr (s1, mn1)"
    and fs: "find_safe ai s1 so = (s2, sn1)"
    using pass_result [OF Suc.prems(2) sound_keyed [OF Suc.prems(3)], of mo so] by blast
  note P = pass_sound [OF Suc.prems(2,3) fm fs Suc.prems(4,5)]
  show ?case
  proof (cases "set mn1 = set mo \<and> set sn1 = set so")
    case True
    then have "mn = mn1" "sn = sn1" using Suc.prems(1) fm fs by simp_all
    then show ?thesis using P by simp
  next
    case False
    have "fsm_passes n ai s2 mn1 sn1 = Some (Inr (mn, sn))"
      using Suc.prems(1) fm fs by (simp add: if_not_P [OF False])
    then show ?thesis using Suc.IH [of s2 mn1 sn1] P by blast
  qed
qed


section \<open>The equations \<^verbatim>\<open>calc_equations\<close> builds from a state\<close>

lemma state_fold:
  assumes "shape (width g) (height g) st" "\<forall>c\<in>set cs. in_board g c"
  shows "shape (width g) (height g)
           (fold (\<lambda>c st. if gget (exposed g) (fst c) (snd c)
                          then gset st (fst c) (snd c) (Some (gget (counts g) (fst c) (snd c)))
                          else st) cs st) \<and>
         (\<forall>c. in_board g c \<longrightarrow>
            gget (fold (\<lambda>c st. if gget (exposed g) (fst c) (snd c)
                          then gset st (fst c) (snd c) (Some (gget (counts g) (fst c) (snd c)))
                          else st) cs st) (fst c) (snd c)
            = (if c \<in> set cs \<and> is_exposed g c then Some (count_at g c) else gget st (fst c) (snd c)))"
  using assms
proof (induction cs arbitrary: st)
  case Nil
  then show ?case by simp
next
  case (Cons a cs)
  let ?f = "\<lambda>c st. if gget (exposed g) (fst c) (snd c)
                    then gset st (fst c) (snd c) (Some (gget (counts g) (fst c) (snd c))) else st"
  let ?st1 = "?f a st"
  have ab: "in_board g a" using Cons.prems(2) by simp
  have sh1: "shape (width g) (height g) ?st1" using Cons.prems(1) by (simp add: shape_gset)
  have g1: "\<And>c. in_board g c \<Longrightarrow>
      gget ?st1 (fst c) (snd c) = (if c = a \<and> is_exposed g a then Some (count_at g a) else gget st (fst c) (snd c))"
  proof -
    fix c assume c: "in_board g c"
    have "gget (gset st (fst a) (snd a) (Some (count_at g a))) (fst c) (snd c)
          = (if fst c = fst a \<and> snd c = snd a then Some (count_at g a) else gget st (fst c) (snd c))"
      using Cons.prems(1) ab c by (intro gget_gset [of "width g" "height g"]) (simp_all add: in_board_def)
    then have "gget (gset st (fst a) (snd a) (Some (count_at g a))) (fst c) (snd c)
          = (if c = a then Some (count_at g a) else gget st (fst c) (snd c))"
      by (simp add: prod_eq_iff)
    then show "gget ?st1 (fst c) (snd c)
          = (if c = a \<and> is_exposed g a then Some (count_at g a) else gget st (fst c) (snd c))"
      by (cases "is_exposed g a") (simp_all add: is_exposed_def count_at_def)
  qed
  have b: "\<forall>c\<in>set cs. in_board g c" using Cons.prems(2) by simp
  note I = Cons.IH [OF sh1 b]
  show ?case
  proof (intro conjI allI impI)
    show "shape (width g) (height g) (fold ?f (a # cs) st)" using I by simp
  next
    fix c assume c: "in_board g c"
    have "gget (fold ?f cs ?st1) (fst c) (snd c)
          = (if c \<in> set cs \<and> is_exposed g c then Some (count_at g c) else gget ?st1 (fst c) (snd c))"
      using I c by blast
    then show "gget (fold ?f (a # cs) st) (fst c) (snd c)
          = (if c \<in> set (a # cs) \<and> is_exposed g c then Some (count_at g c) else gget st (fst c) (snd c))"
      using g1 [OF c] by auto
  qed
qed

lemma state_result:
  assumes "wf_game g"
  shows "shape (width g) (height g) (state g)"
    and "in_board g c \<Longrightarrow>
           gget (state g) (fst c) (snd c) = (if is_exposed g c then Some (count_at g c) else None)"
proof -
  have sh: "shape (width g) (height g) (new_grid (width g) (height g) (None :: int option))"
    by (rule shape_new_grid)
  have b: "\<forall>c\<in>set (cells g). in_board g c" by (simp add: set_cells)
  note S = state_fold [OF sh b, folded state_def]
  show "shape (width g) (height g) (state g)" using S by simp
  assume c: "in_board g c"
  then have "gget (state g) (fst c) (snd c)
     = (if c \<in> set (cells g) \<and> is_exposed g c then Some (count_at g c)
        else gget (new_grid (width g) (height g) None) (fst c) (snd c))"
    using S by blast
  then show "gget (state g) (fst c) (snd c) = (if is_exposed g c then Some (count_at g c) else None)"
    using c by (simp add: set_cells) (simp add: in_board_def gget_new_grid)
qed

lemma calc_visit_eq:
  "calc_visit ai eq_values x y d eqs =
     (if d \<noteq> (0, 0) \<and> on_board ai (x + fst d, y + snd d) \<and>
         gget eq_values (x + fst d) (y + snd d) = None
      then gset eqs x y (List.insert (x + fst d, y + snd d) (gget eqs x y))
      else eqs)"
  by (cases d) (auto simp: calc_visit_def on_board_def)

lemma visit_adds_Cons:
  "visit_adds ai eq_values p (d # ds) =
     (if d \<noteq> (0, 0) \<and> on_board ai (fst p + fst d, snd p + snd d) \<and>
         gget eq_values (fst p + fst d) (snd p + snd d) = None
      then insert (fst p + fst d, snd p + snd d) (visit_adds ai eq_values p ds)
      else visit_adds ai eq_values p ds)"
  by (auto simp: visit_adds_def)

lemma calc_fold_visit:
  assumes "shape (ai_width ai) (ai_height ai) eqs" "on_board ai p"
  shows "shape (ai_width ai) (ai_height ai) (fold (calc_visit ai eq_values (fst p) (snd p)) ds eqs) \<and>
         (\<forall>c. on_board ai c \<longrightarrow>
            set (gget (fold (calc_visit ai eq_values (fst p) (snd p)) ds eqs) (fst c) (snd c))
            = set (gget eqs (fst c) (snd c)) \<union> (if c = p then visit_adds ai eq_values p ds else {}))"
  using assms
proof (induction ds arbitrary: eqs)
  case Nil
  then show ?case by (simp add: visit_adds_def)
next
  case (Cons d ds)
  let ?n = "(fst p + fst d, snd p + snd d)"
  let ?hit = "d \<noteq> (0, 0) \<and> on_board ai ?n \<and> gget eq_values (fst p + fst d) (snd p + snd d) = None"
  let ?e1 = "calc_visit ai eq_values (fst p) (snd p) d eqs"
  have sh1: "shape (ai_width ai) (ai_height ai) ?e1"
    using Cons.prems(1) by (simp add: calc_visit_eq shape_gset)
  have g1: "\<And>c. on_board ai c \<Longrightarrow>
      set (gget ?e1 (fst c) (snd c))
      = set (gget eqs (fst c) (snd c)) \<union> (if c = p \<and> ?hit then {?n} else {})"
  proof -
    fix c assume c: "on_board ai c"
    show "set (gget ?e1 (fst c) (snd c))
      = set (gget eqs (fst c) (snd c)) \<union> (if c = p \<and> ?hit then {?n} else {})"
    proof (cases ?hit)
      case True
      then have "?e1 = gset eqs (fst p) (snd p) (List.insert ?n (gget eqs (fst p) (snd p)))"
        by (simp add: calc_visit_eq)
      then show ?thesis using True grid_upd_get [OF Cons.prems(1,2) c] by auto
    next
      case False
      have "?e1 = eqs" by (simp only: calc_visit_eq if_not_P [OF False] if_False)
      moreover have "(if c = p \<and> ?hit then {?n} else {}) = {}" using False by auto
      ultimately show ?thesis by (simp only: Un_empty_right)
    qed
  qed
  note I = Cons.IH [OF sh1 Cons.prems(2)]
  show ?case
  proof (intro conjI allI impI)
    show "shape (ai_width ai) (ai_height ai) (fold (calc_visit ai eq_values (fst p) (snd p)) (d # ds) eqs)"
      using I by simp
  next
    fix c assume c: "on_board ai c"
    have "set (gget (fold (calc_visit ai eq_values (fst p) (snd p)) ds ?e1) (fst c) (snd c))
            = set (gget ?e1 (fst c) (snd c)) \<union> (if c = p then visit_adds ai eq_values p ds else {})"
      using I c by blast
    then show "set (gget (fold (calc_visit ai eq_values (fst p) (snd p)) (d # ds) eqs) (fst c) (snd c))
            = set (gget eqs (fst c) (snd c)) \<union> (if c = p then visit_adds ai eq_values p (d # ds) else {})"
      using g1 [OF c] by (auto simp: visit_adds_Cons)
  qed
qed

lemma visit_adds_offsets: "visit_adds ai eq_values p offsets = unknown_neighbours ai eq_values p"
  unfolding visit_adds_def unknown_neighbours_def adjacent_offset by auto

lemma calc_fold_squares:
  assumes "shape (ai_width ai) (ai_height ai) eqs" "\<forall>p\<in>set ps. on_board ai p"
  shows "shape (ai_width ai) (ai_height ai)
           (fold (\<lambda>p eqs. fold (calc_visit ai eq_values (fst p) (snd p)) offsets eqs) ps eqs) \<and>
         (\<forall>c. on_board ai c \<longrightarrow>
            set (gget (fold (\<lambda>p eqs. fold (calc_visit ai eq_values (fst p) (snd p)) offsets eqs) ps eqs)
                   (fst c) (snd c))
            = set (gget eqs (fst c) (snd c)) \<union>
              (if c \<in> set ps then unknown_neighbours ai eq_values c else {}))"
  using assms
proof (induction ps arbitrary: eqs)
  case Nil
  then show ?case by simp
next
  case (Cons p ps)
  let ?F = "\<lambda>p eqs. fold (calc_visit ai eq_values (fst p) (snd p)) offsets eqs"
  have pb: "on_board ai p" using Cons.prems(2) by simp
  note V = calc_fold_visit [OF Cons.prems(1) pb, of eq_values offsets]
  have b: "\<forall>p\<in>set ps. on_board ai p" using Cons.prems(2) by simp
  note I = Cons.IH [OF conjunct1 [OF V] b]
  show ?case
  proof (intro conjI allI impI)
    show "shape (ai_width ai) (ai_height ai) (fold ?F (p # ps) eqs)" using I by simp
  next
    fix c assume c: "on_board ai c"
    have 1: "set (gget (?F p eqs) (fst c) (snd c))
             = set (gget eqs (fst c) (snd c)) \<union> (if c = p then unknown_neighbours ai eq_values p else {})"
      using V c by (simp add: visit_adds_offsets)
    have 2: "set (gget (fold ?F ps (?F p eqs)) (fst c) (snd c))
             = set (gget (?F p eqs) (fst c) (snd c)) \<union>
               (if c \<in> set ps then unknown_neighbours ai eq_values c else {})"
      using I c by blast
    show "set (gget (fold ?F (p # ps) eqs) (fst c) (snd c))
            = set (gget eqs (fst c) (snd c)) \<union>
              (if c \<in> set (p # ps) then unknown_neighbours ai eq_values c else {})"
      using 1 2 by auto
  qed
qed

lemma calc_equations_result:
  assumes "\<forall>p\<in>set (exposed_squares ai). on_board ai p"
  shows "shape (ai_width ai) (ai_height ai) (calc_equations ai eq_values)"
    and "on_board ai c \<Longrightarrow>
           eq_set (calc_equations ai eq_values, eq_values) c
           = (if c \<in> set (exposed_squares ai) then unknown_neighbours ai eq_values c else {})"
proof -
  have sh: "shape (ai_width ai) (ai_height ai) (new_grid (ai_width ai) (ai_height ai) ([] :: (int \<times> int) list))"
    by (rule shape_new_grid)
  note R = calc_fold_squares [OF sh assms, of eq_values, folded calc_equations_def]
  show "shape (ai_width ai) (ai_height ai) (calc_equations ai eq_values)" using R by simp
  assume c: "on_board ai c"
  then have "set (gget (calc_equations ai eq_values) (fst c) (snd c))
     = set (gget (new_grid (ai_width ai) (ai_height ai) []) (fst c) (snd c)) \<union>
       (if c \<in> set (exposed_squares ai) then unknown_neighbours ai eq_values c else {})"
    using R by blast
  moreover have "gget (new_grid (ai_width ai) (ai_height ai) ([] :: (int \<times> int) list)) (fst c) (snd c) = []"
    using c by (simp add: on_board_def gget_new_grid)
  ultimately show "eq_set (calc_equations ai eq_values, eq_values) c
           = (if c \<in> set (exposed_squares ai) then unknown_neighbours ai eq_values c else {})"
    by (simp add: eq_set_def)
qed

text \<open>The equations of a game whose exposure the solver tracks.\<close>

lemma distinct_offsets: "distinct offsets"
  by (simp add: offsets_def distinct_product)

lemma distinct_neighbours: "distinct (neighbours g c)"
proof -
  have "inj_on (\<lambda>d. (fst c + fst d, snd c + snd d)) A" for A :: "(int \<times> int) set"
    by (auto simp: inj_on_def prod_eq_iff)
  then have "distinct (map (\<lambda>d. (fst c + fst d, snd c + snd d)) (filter (\<lambda>d. d \<noteq> (0, 0)) offsets))"
    using distinct_offsets by (simp add: distinct_map)
  then show ?thesis unfolding neighbours_def by (rule distinct_filter)
qed

lemma neighbour_mines_card:
  "neighbour_mines g c = int (card {n. in_board g n \<and> adjacent c n \<and> is_mine g n})"
proof -
  have "length (filter (is_mine g) (neighbours g c))
        = card (set (filter (is_mine g) (neighbours g c)))"
    using distinct_card [of "filter (is_mine g) (neighbours g c)"] distinct_neighbours [of g c]
    by simp
  moreover have "set (filter (is_mine g) (neighbours g c))
        = {n. in_board g n \<and> adjacent c n \<and> is_mine g n}"
    by (auto simp: set_neighbours)
  ultimately show ?thesis by (simp add: neighbour_mines_def)
qed

lemma tracks_on_board: "tracks ai g \<Longrightarrow> on_board ai c = in_board g c"
  by (simp add: tracks_def on_board_def in_board_def)

lemma set_exposed_cells: "set (exposed_cells g) = {c. in_board g c \<and> is_exposed g c}"
  by (auto simp: exposed_cells_def set_cells)

lemma calc_eq_system:
  assumes sh: "shape (ai_width ai) (ai_height ai) eq_values"
    and ex: "\<forall>p\<in>set (exposed_squares ai). on_board ai p \<and> gget eq_values (fst p) (snd p) \<noteq> None"
  shows "eq_system ai (calc_equations ai eq_values, eq_values)"
proof -
  let ?s = "(calc_equations ai eq_values, eq_values)"
  have ob: "\<forall>p\<in>set (exposed_squares ai). on_board ai p" using ex by blast
  note R = calc_equations_result [OF ob, where eq_values = eq_values]
  have E: "\<And>c. on_board ai c \<Longrightarrow> eq_set ?s c
             = (if c \<in> set (exposed_squares ai) then unknown_neighbours ai eq_values c else {})"
    by (rule R(2))
  have 1: "eq_shape ai ?s" using R(1) sh by (simp add: eq_shape_def)
  have 2: "keyed ai ?s"
    unfolding keyed_def
  proof (intro allI impI)
    fix c assume c: "on_board ai c" and ne: "eq_set ?s c \<noteq> {}"
    have "c \<in> set (exposed_squares ai)" using E [OF c] ne by (auto split: if_splits)
    then show "eq_val ?s c \<noteq> None" using ex by (simp add: eq_val_def)
  qed
  have 3: "\<forall>c u. on_board ai c \<longrightarrow> u \<in> eq_set ?s c \<longrightarrow> on_board ai u \<and> eq_val ?s u = None"
  proof (intro allI impI)
    fix c u assume c: "on_board ai c" and u: "u \<in> eq_set ?s c"
    have "u \<in> unknown_neighbours ai eq_values c" using E [OF c] u by (auto split: if_splits)
    then show "on_board ai u \<and> eq_val ?s u = None"
      by (simp add: unknown_neighbours_def eq_val_def)
  qed
  show ?thesis unfolding eq_system_def using 1 2 3 by (intro conjI)
qed

lemma board_equations:
  assumes wf: "wf_game g" and tr: "tracks ai g" and c: "in_board g c"
  shows "eq_val (calc_equations ai (state g), state g) c
           = (if is_exposed g c then Some (count_at g c) else None)"
    and "eq_set (calc_equations ai (state g), state g) c
           = (if is_exposed g c
              then {n. in_board g n \<and> adjacent c n \<and> \<not> is_exposed g n} else {})"
proof -
  show "eq_val (calc_equations ai (state g), state g) c
           = (if is_exposed g c then Some (count_at g c) else None)"
    using state_result(2) [OF wf c] by (simp add: eq_val_def)
  have ob: "\<forall>p\<in>set (exposed_squares ai). on_board ai p"
    using tr tracks_on_board [OF tr] by (simp add: tracks_def set_exposed_cells)
  have oc: "on_board ai c" using c tracks_on_board [OF tr] by simp
  have mem: "c \<in> set (exposed_squares ai) \<longleftrightarrow> is_exposed g c"
    using tr c by (simp add: tracks_def set_exposed_cells)
  have "unknown_neighbours ai (state g) c = {n. in_board g n \<and> adjacent c n \<and> \<not> is_exposed g n}"
  proof -
    have "\<And>n. in_board g n \<Longrightarrow> (gget (state g) (fst n) (snd n) = None) = (\<not> is_exposed g n)"
      using state_result(2) [OF wf] by simp
    then show ?thesis unfolding unknown_neighbours_def tracks_on_board [OF tr] by blast
  qed
  then show "eq_set (calc_equations ai (state g), state g) c
           = (if is_exposed g c
              then {n. in_board g n \<and> adjacent c n \<and> \<not> is_exposed g n} else {})"
    using calc_equations_result(2) [OF ob oc, where eq_values = "state g"] mem by simp
qed

lemma board_eq_system:
  assumes wf: "wf_game g" and tr: "tracks ai g"
  shows "eq_system ai (calc_equations ai (state g), state g)"
proof (rule calc_eq_system)
  show "shape (ai_width ai) (ai_height ai) (state g)"
    using state_result(1) [OF wf] tr by (simp add: tracks_def)
  show "\<forall>p\<in>set (exposed_squares ai). on_board ai p \<and> gget (state g) (fst p) (snd p) \<noteq> None"
  proof
    fix p assume "p \<in> set (exposed_squares ai)"
    then have p: "in_board g p" "is_exposed g p" using tr by (simp_all add: tracks_def set_exposed_cells)
    then show "on_board ai p \<and> gget (state g) (fst p) (snd p) \<noteq> None"
      using state_result(2) [OF wf p(1)] tracks_on_board [OF tr] by simp
  qed
qed

lemma board_sound:
  assumes inv: "game_inv g" and ne: "\<not> explosion g" and tr: "tracks ai g"
  shows "sound_for ai {c. in_board g c \<and> is_mine g c} (calc_equations ai (state g), state g)"
  unfolding sound_for_def
proof (intro allI impI)
  let ?s = "(calc_equations ai (state g), state g)"
  let ?M = "{c. in_board g c \<and> is_mine g c}"
  fix c assume c: "on_board ai c" and nonempty: "eq_set ?s c \<noteq> {}"
  note G = game_invD [OF inv]
  have cb: "in_board g c" using c tracks_on_board [OF tr] by simp
  note B = board_equations [OF G(1) tr cb]
  have ex: "is_exposed g c" using nonempty B(2) by (auto split: if_splits)
  have E: "eq_set ?s c = {n. in_board g n \<and> adjacent c n \<and> \<not> is_exposed g n}"
    using B(2) ex by simp
  have V: "eq_val ?s c = Some (count_at g c)" using B(1) ex by simp
  have nm: "\<And>n. in_board g n \<Longrightarrow> is_mine g n \<Longrightarrow> \<not> is_exposed g n"
    using G(6) ne by blast
  have "eq_set ?s c \<inter> ?M = {n. in_board g n \<and> adjacent c n \<and> is_mine g n}"
    using E nm by blast
  then have "int (card (eq_set ?s c \<inter> ?M)) = neighbour_mines g c"
    by (simp add: neighbour_mines_card)
  also have "\<dots> = count_at g c" using G(2) [rule_format, OF cb] by simp
  finally show "eq_val ?s c = Some (int (card (eq_set ?s c \<inter> ?M)))" using V by simp
qed

lemma card_on_board: "card {c. on_board ai c} = nat (ai_width ai) * nat (ai_height ai)"
proof -
  have "card {c. on_board ai c} = length (ai_cells ai)"
    using distinct_card [OF distinct_ai_cells [of ai]] by (simp add: set_ai_cells)
  then show ?thesis by (simp add: ai_cells_def length_product)
qed

lemma eq_system_on_board:
  assumes "eq_system ai s"
  shows "eq_union ai s \<subseteq> {u. on_board ai u \<and> eq_val s u = None}"
  using assms unfolding eq_system_def eq_union_def by blast

lemma eq_system_bound:
  assumes sys: "eq_system ai s" and w: "0 < ai_width ai" and h: "0 < ai_height ai"
  shows "card (eq_union ai s) < nat (ai_width ai * ai_height ai)"
proof -
  let ?B = "{c. on_board ai c}"
  have cb: "card ?B = nat (ai_width ai * ai_height ai)"
    using card_on_board [of ai] w h by (simp add: nat_mult_distrib)
  note sub = eq_system_on_board [OF sys]
  show ?thesis
  proof (cases "eq_union ai s = {}")
    case True
    have "0 < ai_width ai * ai_height ai" using w h by simp
    then show ?thesis using True by simp
  next
    case False
    then obtain c where c: "on_board ai c" "eq_set s c \<noteq> {}" unfolding eq_union_def by blast
    have "eq_val s c \<noteq> None" using sys c unfolding eq_system_def keyed_def by blast
    then have "c \<notin> eq_union ai s" using sub by auto
    then have "eq_union ai s \<subset> ?B" using sub c(1) by blast
    then have "card (eq_union ai s) < card ?B" using finite_on_board [of ai] by (simp add: psubset_card_mono)
    then show ?thesis using cb by simp
  qed
qed

text \<open>The passes of the loop, with the values after each pass.\<close>

lemma fsm_trace_result:
  assumes "eq_shape ai s" "keyed ai s" "card (eq_union ai s) < n"
  shows "\<exists>r. fsm_passes n ai s mo so = Some (Inr r) \<and>
             fsm_trace n ai s mo so \<noteq> [] \<and> last (fsm_trace n ai s mo so) = r \<and>
             growing ((mo, so) # fsm_trace n ai s mo so) \<and>
             (\<forall>p\<in>set (fsm_trace n ai s mo so).
                set (fst p) \<subseteq> set mo \<union> eq_union ai s \<and> set (snd p) \<subseteq> set so \<union> eq_union ai s)"
  using assms
proof (induction n arbitrary: s mo so)
  case 0
  then show ?case by simp
next
  case (Suc n)
  obtain s1 mn1 s2 sn1 where fm: "find_mine ai s mo = Inr (s1, mn1)"
    and fs: "find_safe ai s1 so = (s2, sn1)"
    and mn: "set mn1 = set (mine_candidates ai s) \<union> set mo"
    and sn: "set sn1 = set (safe_candidates ai s1) \<union> set so"
    and sh2: "eq_shape ai s2" and k2: "keyed ai s2"
    and u1: "eq_union ai s1 = eq_union ai s - set (mine_candidates ai s)"
    and u2: "eq_union ai s2 = eq_union ai s1 - set (safe_candidates ai s1)"
    using pass_result [OF Suc.prems(1,2), of mo so] by blast
  have mc: "set (mine_candidates ai s) \<subseteq> eq_union ai s" by (rule mine_candidates_subset)
  have sc: "set (safe_candidates ai s1) \<subseteq> eq_union ai s1" by (rule safe_candidates_subset)
  have b1: "set mn1 \<subseteq> set mo \<union> eq_union ai s" "set sn1 \<subseteq> set so \<union> eq_union ai s"
    using mn sn mc sc u1 by auto
  have g1: "set mo \<subseteq> set mn1" "set so \<subseteq> set sn1" using mn sn by auto
  show ?case
  proof (cases "set mn1 = set mo \<and> set sn1 = set so")
    case True
    have p: "fsm_passes (Suc n) ai s mo so = Some (Inr (mn1, sn1))" using fm fs True by simp
    have t: "fsm_trace (Suc n) ai s mo so = [(mn1, sn1)]" using fm fs True by simp
    show ?thesis unfolding p t using b1 g1 by simp
  next
    case False
    have p: "fsm_passes (Suc n) ai s mo so = fsm_passes n ai s2 mn1 sn1"
      using fm fs by (simp add: if_not_P [OF False])
    have t: "fsm_trace (Suc n) ai s mo so = (mn1, sn1) # fsm_trace n ai s2 mn1 sn1"
      using fm fs by (simp add: if_not_P [OF False])
    have "set (mine_candidates ai s) \<noteq> {} \<or> set (safe_candidates ai s1) \<noteq> {}"
      using False mn sn by auto
    then have "eq_union ai s2 \<subset> eq_union ai s"
      using diff_psubset [of "set (mine_candidates ai s)" "eq_union ai s" "set (safe_candidates ai s1)"]
        mc sc u1 u2 by simp
    then have "card (eq_union ai s2) < card (eq_union ai s)"
      using finite_eq_union [of ai s] by (simp add: psubset_card_mono)
    then have c: "card (eq_union ai s2) < n" using Suc.prems(3) by simp
    obtain r where res: "fsm_passes n ai s2 mn1 sn1 = Some (Inr r)"
      and ne: "fsm_trace n ai s2 mn1 sn1 \<noteq> []"
      and la: "last (fsm_trace n ai s2 mn1 sn1) = r"
      and gr: "growing ((mn1, sn1) # fsm_trace n ai s2 mn1 sn1)"
      and bd: "\<forall>p\<in>set (fsm_trace n ai s2 mn1 sn1).
                set (fst p) \<subseteq> set mn1 \<union> eq_union ai s2 \<and> set (snd p) \<subseteq> set sn1 \<union> eq_union ai s2"
      using Suc.IH [OF sh2 k2 c, of mn1 sn1] by blast
    have sub: "eq_union ai s2 \<subseteq> eq_union ai s" using u1 u2 by auto
    have bd': "\<forall>p\<in>set (fsm_trace n ai s2 mn1 sn1).
                set (fst p) \<subseteq> set mo \<union> eq_union ai s \<and> set (snd p) \<subseteq> set so \<union> eq_union ai s"
      using bd b1 sub by blast
    have "fsm_passes (Suc n) ai s mo so = Some (Inr r)" using p res by simp
    moreover have "fsm_trace (Suc n) ai s mo so \<noteq> []" using t by simp
    moreover have "last (fsm_trace (Suc n) ai s mo so) = r" using t ne la by simp
    moreover have "growing ((mo, so) # fsm_trace (Suc n) ai s mo so)" using t gr g1 by simp
    moreover have "\<forall>p\<in>set (fsm_trace (Suc n) ai s mo so).
                set (fst p) \<subseteq> set mo \<union> eq_union ai s \<and> set (snd p) \<subseteq> set so \<union> eq_union ai s"
      using t bd' b1 by simp
    ultimately show ?thesis by blast
  qed
qed

section \<open>The solver on the two boards\<close>

lemma game_inv_board51: "game_inv board51"
  by code_simp

lemma tracks_board51: "tracks ai51 board51"
  by code_simp

lemma solve_board51:
  "find_safe_and_mine ai51 (calc_equations ai51 (state board51)) (state board51)
   = Some (Inr ([(2, 0), (0, 0)], [(4, 0)]))"
  by code_simp

lemma play_board51:
  "game_init config51 (Some [[True], [False], [True], [False], [False]]) []
     = Some (board51\<lparr>num_moves := 0, num_exposed_squares := 0,
                     exposed := [[False], [False], [False], [False], [False]]\<rparr>) \<and>
   play (board51\<lparr>num_moves := 0, num_exposed_squares := 0,
                 exposed := [[False], [False], [False], [False], [False]]\<rparr>)
     [Select 1 0, Select 3 0] = Some (board51, 2) \<and>
   ai_update (ai_update (reset ai51 config51) [Square 1 0 2]) [Square 3 0 1] = ai51"
  by code_simp

lemma game_inv_board31: "game_inv board31"
  by code_simp

lemma tracks_board31: "tracks ai31 board31"
  by code_simp

lemma solve_board31:
  "find_safe_and_mine ai31 (calc_equations ai31 (state board31)) (state board31)
   = Some (Inr ([(2, 0)], []))"
  by code_simp

lemma play_board31:
  "game_init config31 (Some [[True], [False], [False]]) []
     = Some (board31\<lparr>num_moves := 0, num_exposed_squares := 0, explosion := False,
                     exposed := [[False], [False], [False]]\<rparr>) \<and>
   play (board31\<lparr>num_moves := 0, num_exposed_squares := 0, explosion := False,
                 exposed := [[False], [False], [False]]\<rparr>)
     [Select 1 0, Select 0 0] = Some (board31, 2) \<and>
   ai_update (ai_update (reset ai31 config31) [Square 1 0 1]) [Square 0 0 0] = ai31"
  by code_simp

lemma board31_facts:
  "explosion board31" "\<not> is_mine board31 (2, 0)" "is_exposed board31 (0, 0)" "is_mine board31 (0, 0)"
  by code_simp+

lemma board51_facts:
  "\<not> explosion board51" "0 < ai_width ai51" "0 < ai_height ai51"
  "nat (ai_width ai51 * ai_height ai51) = 5"
  by code_simp+

section \<open>Soundness of the solver\<close>

text \<open>
  C1, as stated, fails on a game in which a mine has been exposed. On the board of width 3
  and height 1 with its mine at \<open>(0, 0)\<close>, after \<^verbatim>\<open>select(1, 0)\<close> and \<^verbatim>\<open>select(0, 0)\<close> the
  solver's \<^verbatim>\<open>exposed_squares\<close> are the exposed cells of the board, the state shows
  \<open>0\<close> at \<open>(0, 0)\<close> and \<open>1\<close> at \<open>(1, 0)\<close>, the equation of \<open>(1, 0)\<close> is \<open>{(2, 0)}\<close> with
  value \<open>1\<close>, and \<^verbatim>\<open>find_safe_and_mine\<close> returns \<open>(2, 0)\<close> in its mine set; \<open>(2, 0)\<close> is
  not a mine.
\<close>

theorem solver_sound_counterexample:
  "game_inv board31 \<and> tracks ai31 board31 \<and>
   find_safe_and_mine ai31 (calc_equations ai31 (state board31)) (state board31)
     = Some (Inr ([(2, 0)], [])) \<and>
   \<not> is_mine board31 (2, 0)"
  using game_inv_board31 tracks_board31 solve_board31 board31_facts(2) by (intro conjI)

text \<open>
  C1, amended. For every game in which no mine has been exposed and whose solver tracking
  (\<^verbatim>\<open>exposed_squares\<close>, with the board's dimensions) matches the board's true exposure
  state, \<^verbatim>\<open>find_safe_and_mine\<close>, on the equations \<^verbatim>\<open>calc_equations\<close> builds from the game's
  state, returns; every coordinate in the safe set returned is a cell of the board that is
  not a mine in the ground-truth layout, and every coordinate in the returned mine set is
  a cell that is a mine in the ground-truth layout.
\<close>

theorem solver_sound:
  assumes inv: "game_inv g" and ne: "\<not> explosion g" and tr: "tracks ai g"
  shows "\<exists>mn sf. find_safe_and_mine ai (calc_equations ai (state g)) (state g) = Some (Inr (mn, sf)) \<and>
           (\<forall>c\<in>set sf. in_board g c \<and> \<not> is_mine g c) \<and>
           (\<forall>c\<in>set mn. in_board g c \<and> is_mine g c)"
proof -
  let ?s = "(calc_equations ai (state g), state g)"
  let ?M = "{c. in_board g c \<and> is_mine g c}"
  have wf: "wf_game g" using game_invD(1) [OF inv] .
  have sys: "eq_system ai ?s" using board_eq_system [OF wf tr] .
  have sh: "eq_shape ai ?s" and k: "keyed ai ?s" using sys by (simp_all add: eq_system_def)
  obtain mn sf where r: "fsm_passes (Suc (card (eq_union ai ?s))) ai ?s [] [] = Some (Inr (mn, sf))"
    and b: "set sf \<subseteq> set [] \<union> eq_union ai ?s"
    using fsm_passes_terminates [OF sh k, of "Suc (card (eq_union ai ?s))" "[]" "[]"] by auto
  have loop: "find_safe_and_mine ai (calc_equations ai (state g)) (state g) = Some (Inr (mn, sf))"
    using fsm_passes_loop [OF r] by (simp add: find_safe_and_mine_def)
  have s: "set mn \<subseteq> ?M \<and> set sf \<inter> ?M = {}"
    using fsm_passes_sound [OF r sh board_sound [OF inv ne tr]] by simp
  have "eq_union ai ?s \<subseteq> {c. in_board g c}"
    using eq_system_on_board [OF sys] tracks_on_board [OF tr] by blast
  then have "set sf \<subseteq> {c. in_board g c}" using b by auto
  then have "(\<forall>c\<in>set sf. in_board g c \<and> \<not> is_mine g c) \<and> (\<forall>c\<in>set mn. in_board g c \<and> is_mine g c)"
    using s by blast
  then show ?thesis using loop by blast
qed

theorem solver_sound_witness:
  "game_inv board51 \<and> \<not> explosion board51 \<and> tracks ai51 board51 \<and>
   find_safe_and_mine ai51 (calc_equations ai51 (state board51)) (state board51)
     = Some (Inr ([(2, 0), (0, 0)], [(4, 0)])) \<and>
   \<not> is_mine board51 (4, 0) \<and> is_mine board51 (2, 0) \<and> is_mine board51 (0, 0)"
proof -
  note T = solver_sound [OF game_inv_board51 board51_facts(1) tracks_board51]
  have a: "\<not> is_mine board51 (4, 0) \<and> is_mine board51 (2, 0) \<and> is_mine board51 (0, 0)"
    using T solve_board51 by auto
  show ?thesis using game_inv_board51 board51_facts(1) tracks_board51 solve_board51 a by blast
qed

section \<open>The concrete scenario\<close>

text \<open>
  C2, as stated, fails: on the 3 by 3 board with its mine at \<open>(2, 2)\<close>, the cells of count
  0 are \<open>(0,0)\<close>, \<open>(0,1)\<close>, \<open>(0,2)\<close>, \<open>(1,0)\<close> and \<open>(2,0)\<close>; they are all reached from \<open>(0,0)\<close>,
  so \<^verbatim>\<open>select(0, 0)\<close> returns eight records, not four, exposes \<open>(2,1)\<close> and \<open>(1,2)\<close>,
  and the status it returns is \<^verbatim>\<open>VICTORY\<close>, not \<^verbatim>\<open>PLAYING\<close>.
\<close>

theorem scenario_select_counterexample:
  "select board3 0 0 =
     Some (Inr (MoveResult VICTORY
                 {Square 0 0 0, Square 0 1 0, Square 0 2 0, Square 1 0 0, Square 2 0 0,
                  Square 1 1 1, Square 1 2 1, Square 2 1 1}), board3_after) \<and>
   MoveResult VICTORY
     {Square 0 0 0, Square 0 1 0, Square 0 2 0, Square 1 0 0, Square 2 0 0,
      Square 1 1 1, Square 1 2 1, Square 2 1 1}
     \<noteq> MoveResult PLAYING {Square 0 0 0, Square 1 0 0, Square 0 1 0, Square 1 1 1} \<and>
   is_exposed board3_after (2, 1) \<and> is_exposed board3_after (1, 2) \<and>
   num_exposed_squares board3_after \<noteq> 4"
  using select_board3_after board3_after_facts by simp

text \<open>
  C2, amended. On the 3 by 3 board with a single mine at \<open>(2, 2)\<close> and no prior moves,
  \<^verbatim>\<open>select(0, 0)\<close> exposes exactly the eight cells without a mine: \<open>(0,0)\<close>, \<open>(0,1)\<close>,
  \<open>(0,2)\<close>, \<open>(1,0)\<close>, \<open>(2,0)\<close> with count 0 and \<open>(1,1)\<close>, \<open>(1,2)\<close>, \<open>(2,1)\<close> with count 1; only
  \<open>(2,2)\<close> remains unexposed; the returned status is \<^verbatim>\<open>VICTORY\<close>; and the count of exposed
  cells after the move is 8.
\<close>

theorem scenario_select:
  "game_init config3 (Some layout3) rnd = Some board3 \<and>
   select board3 0 0 =
     Some (Inr (MoveResult VICTORY
                 {Square 0 0 0, Square 0 1 0, Square 0 2 0, Square 1 0 0, Square 2 0 0,
                  Square 1 1 1, Square 1 2 1, Square 2 1 1}), board3_after) \<and>
   exposed_cells board3_after = [(0, 0), (0, 1), (0, 2), (1, 0), (1, 1), (1, 2), (2, 0), (2, 1)] \<and>
   \<not> is_exposed board3_after (2, 2) \<and>
   num_exposed_squares board3_after = 8"
proof -
  have "game_init config3 (Some layout3) rnd = game_init config3 (Some layout3) []"
    by (simp add: game_init_def layout3_def)
  then show ?thesis
    using game_init_board3 select_board3_after board3_after_facts by simp
qed

section \<open>The transitions of the status\<close>

text \<open>
  C3, as stated, fails in two places. On the board of width 2 and height 1 with its mine
  at \<open>(0, 0)\<close>, selecting the mine brings the count of exposed cells to
  \<open>width * height - num_mines = 1\<close>, and the status is \<^verbatim>\<open>DEFEAT\<close>, not \<^verbatim>\<open>VICTORY\<close>: the
  explosion is tested first in \<^verbatim>\<open>status\<close>. And after \<open>(1, 0)\<close> has been selected and the
  status is \<^verbatim>\<open>VICTORY\<close>, \<^verbatim>\<open>select(0, 0)\<close> still returns and changes the exposure and the
  move counter, since \<^verbatim>\<open>select\<close> tests \<^verbatim>\<open>_explosion\<close> only.
\<close>

theorem status_transitions_counterexample:
  "status board2 = PLAYING \<and>
   select board2 0 0 = Some (Inr (MoveResult DEFEAT {Square 0 0 0}), board2_lost) \<and>
   num_exposed_squares board2_lost = width board2 * height board2 - num_mines board2 \<and>
   status board2_lost \<noteq> VICTORY \<and>
   select board2 1 0 = Some (Inr (MoveResult VICTORY {Square 1 0 1}), board2_won) \<and>
   status board2_won \<noteq> PLAYING \<and>
   select board2_won 0 0 = Some (Inr (MoveResult DEFEAT {Square 0 0 0}), board2_won_lost) \<and>
   exposed board2_won_lost \<noteq> exposed board2_won \<and>
   num_moves board2_won_lost \<noteq> num_moves board2_won"
  using board2_facts select_board2_mine select_board2_safe select_board2_won_mine by simp

text \<open>
  C3, amended. From status \<^verbatim>\<open>PLAYING\<close>, selecting a mine of the board returns with status
  \<^verbatim>\<open>DEFEAT\<close>, and a selection that returns yields \<^verbatim>\<open>DEFEAT\<close> exactly when the selected
  cell is a mine, \<^verbatim>\<open>VICTORY\<close> exactly when it is not a mine and the count of exposed cells
  has reached \<open>width * height - num_mines\<close>, and never \<^verbatim>\<open>QUIT\<close>; \<^verbatim>\<open>quit\<close> makes the status
  \<^verbatim>\<open>QUIT\<close>; once the status is \<^verbatim>\<open>DEFEAT\<close> every selection raises and leaves the game as it
  is; and \<^verbatim>\<open>quit\<close> never changes mines, exposure, counts or the move counter.
\<close>

theorem status_transitions:
  assumes inv: "game_inv g"
  shows "(status g = PLAYING \<and> in_board g (x, y) \<and> is_mine g (x, y) \<longrightarrow>
            (\<exists>m g'. select g x y = Some (Inr m, g') \<and> mr_status m = DEFEAT \<and> status g' = DEFEAT)) \<and>
         (\<forall>m g'. status g = PLAYING \<and> select g x y = Some (Inr m, g') \<longrightarrow>
            mr_status m = status g' \<and>
            (status g' = DEFEAT \<longleftrightarrow> is_mine g (x, y)) \<and>
            (status g' = VICTORY \<longleftrightarrow>
               \<not> is_mine g (x, y) \<and>
               num_exposed_squares g' = width g * height g - num_mines g) \<and>
            status g' \<noteq> QUIT) \<and>
         status (quit g) = QUIT \<and>
         (\<forall>r g'. status g = DEFEAT \<and> select g x y = Some (r, g') \<longrightarrow>
            (\<exists>e. r = Inl e) \<and> g' = g) \<and>
         mines (quit g) = mines g \<and> exposed (quit g) = exposed g \<and>
         counts (quit g) = counts g \<and> num_moves (quit g) = num_moves g"
proof -
  note G = game_invD [OF inv]
  have ret: "\<And>m g'. status g = PLAYING \<Longrightarrow> select g x y = Some (Inr m, g') \<Longrightarrow>
            mr_status m = status g' \<and>
            (status g' = DEFEAT \<longleftrightarrow> is_mine g (x, y)) \<and>
            (status g' = VICTORY \<longleftrightarrow>
               \<not> is_mine g (x, y) \<and>
               num_exposed_squares g' = width g * height g - num_mines g) \<and>
            status g' \<noteq> QUIT"
  proof -
    fix m g' assume p: "status g = PLAYING" and s: "select g x y = Some (Inr m, g')"
    obtain squares where m: "m = MoveResult (status g') (set squares)"
      and mp: "move_post g x y squares g'"
      using select_returns [OF G(1) s] by blast
    note D = move_postD [OF mp]
    have nq: "\<not> quit_flag g" using p by (simp add: status_PLAYING game_over_def)
    have q': "\<not> quit_flag g'" using nq D(8) by simp
    have safe: "num_safe_squares g' = width g * height g - num_mines g" using D(5) G(5) by simp
    show "mr_status m = status g' \<and>
            (status g' = DEFEAT \<longleftrightarrow> is_mine g (x, y)) \<and>
            (status g' = VICTORY \<longleftrightarrow>
               \<not> is_mine g (x, y) \<and>
               num_exposed_squares g' = width g * height g - num_mines g) \<and>
            status g' \<noteq> QUIT"
      using m q' D(10) safe by (simp add: status_DEFEAT status_VICTORY status_QUIT)
  qed
  have mine: "status g = PLAYING \<and> in_board g (x, y) \<and> is_mine g (x, y) \<longrightarrow>
            (\<exists>m g'. select g x y = Some (Inr m, g') \<and> mr_status m = DEFEAT \<and> status g' = DEFEAT)"
  proof
    assume a: "status g = PLAYING \<and> in_board g (x, y) \<and> is_mine g (x, y)"
    then have ne: "\<not> explosion g" by (simp add: status_PLAYING game_over_def)
    then have "\<not> is_exposed g (x, y)" using G(6) a by blast
    then obtain squares g' where
      s: "select g x y = Some (Inr (MoveResult (status g') (set squares)), g')"
      using select_move_post [OF G(1) _ ne, of x y] a by blast
    then have "status g' = DEFEAT" using ret [OF _ s] a by simp
    then show "\<exists>m g'. select g x y = Some (Inr m, g') \<and> mr_status m = DEFEAT \<and> status g' = DEFEAT"
      using s by auto
  qed
  have lost: "\<And>r g'. status g = DEFEAT \<Longrightarrow> select g x y = Some (r, g') \<Longrightarrow>
            (\<exists>e. r = Inl e) \<and> g' = g"
  proof -
    fix r g' assume d: "status g = DEFEAT" and s: "select g x y = Some (r, g')"
    then have "explosion g" by (simp add: status_DEFEAT)
    then show "(\<exists>e. r = Inl e) \<and> g' = g"
      using s select_outside [of g x y] select_over [of g x y] by (cases "in_board g (x, y)") auto
  qed
  have q: "status (quit g) = QUIT" by (simp add: status_QUIT)
  show ?thesis using mine ret lost q by simp
qed

theorem status_transitions_witness:
  "game_inv board2 \<and> status board2 = PLAYING \<and> in_board board2 (0, 0) \<and> is_mine board2 (0, 0) \<and>
   select board2 0 0 = Some (Inr (MoveResult DEFEAT {Square 0 0 0}), board2_lost) \<and>
   status board2_lost = DEFEAT \<and> status (quit board2) = QUIT"
proof -
  note T = status_transitions [OF game_inv_board2, of 0 0]
  have a: "status board2_lost = DEFEAT"
    using T board2_facts select_board2_mine by simp
  have b: "status (quit board2) = QUIT" using T by simp
  show ?thesis using game_inv_board2 board2_facts select_board2_mine a b by simp
qed

section \<open>The postcondition of the constructor\<close>

text \<open>
  C4. For every configuration with positive width and height and
  \<open>0 \<le> num_mines < width * height\<close>: constructed from a supplied layout of the board's shape
  that holds \<open>num_mines\<close> mines, the game has that layout, exactly \<open>num_mines\<close> of its cells
  are mines, and every cell's count is the number of mines among its in-bounds
  8-neighbours; constructed with random placement, from draws in range, the same holds
  whenever the placement loop ends; and there are draws for which it ends.
\<close>

theorem construction_postcondition:
  assumes "0 < cfg_width config" "0 < cfg_height config"
    and "0 \<le> cfg_num_mines config"
    and "cfg_num_mines config < cfg_width config * cfg_height config"
  shows "(\<forall>ms. shape (cfg_width config) (cfg_height config) ms \<and>
              int (layout_count (cfg_width config) (cfg_height config) ms) = cfg_num_mines config \<longrightarrow>
              (\<exists>g. game_init config (Some ms) rnd = Some g \<and> mines g = ms \<and>
                   construction_post config g)) \<and>
         (\<forall>g. rnd_in_range (cfg_width config) (cfg_height config) rnd \<and>
              game_init config None rnd = Some g \<longrightarrow> construction_post config g) \<and>
         (\<exists>rnd' g. rnd_in_range (cfg_width config) (cfg_height config) rnd' \<and>
              game_init config None rnd' = Some g)"
proof (intro conjI allI impI)
  fix ms
  assume "shape (cfg_width config) (cfg_height config) ms \<and>
          int (layout_count (cfg_width config) (cfg_height config) ms) = cfg_num_mines config"
  then show "\<exists>g. game_init config (Some ms) rnd = Some g \<and> mines g = ms \<and>
                   construction_post config g"
    using game_init_supplied [OF assms(1,2), of ms rnd] constructed_post by blast
next
  fix g
  assume "rnd_in_range (cfg_width config) (cfg_height config) rnd \<and>
          game_init config None rnd = Some g"
  then show "construction_post config g"
    using game_init_random [OF assms(1-3), of rnd None g] constructed_post by blast
next
  show "\<exists>rnd' g. rnd_in_range (cfg_width config) (cfg_height config) rnd' \<and>
              game_init config None rnd' = Some g"
    using game_init_random_some [OF assms(1,2)] assms(4) by fastforce
qed

theorem construction_postcondition_witness:
  "0 < cfg_width config3 \<and> 0 < cfg_height config3 \<and> 0 \<le> cfg_num_mines config3 \<and>
   cfg_num_mines config3 < cfg_width config3 * cfg_height config3 \<and>
   shape (cfg_width config3) (cfg_height config3) layout3 \<and>
   int (layout_count (cfg_width config3) (cfg_height config3) layout3) = cfg_num_mines config3 \<and>
   rnd_in_range (cfg_width config3) (cfg_height config3) [(1, 1), (1, 1), (2, 0)] \<and>
   game_init config3 (Some layout3) [(1, 1), (1, 1), (2, 0)] = Some board3 \<and>
   construction_post config3 board3 \<and>
   construction_post config3
     (board3\<lparr>counts := [[1, 1, 1], [1, 0, 1], [1, 1, 1]],
             mines := [[False, False, False], [False, True, False], [False, False, False]]\<rparr>)"
proof -
  note F = config3_facts
  have h: "0 < cfg_width config3" "0 < cfg_height config3" "0 \<le> cfg_num_mines config3"
    "cfg_num_mines config3 < cfg_width config3 * cfg_height config3" using F by simp_all
  note T = construction_postcondition [OF h, of "[(1, 1), (1, 1), (2, 0)]"]
  have i: "game_init config3 (Some layout3) [(1, 1), (1, 1), (2, 0)] = Some board3"
    by code_simp
  have a: "construction_post config3 board3"
    using T F i by fastforce
  have b: "construction_post config3
     (board3\<lparr>counts := [[1, 1, 1], [1, 0, 1], [1, 1, 1]],
             mines := [[False, False, False], [False, True, False], [False, False, False]]\<rparr>)"
    using T F game_init_random3 by blast
  show ?thesis using F i a b by simp
qed

section \<open>The region revealed by a selection\<close>

text \<open>
  C5. For a selection that returns, of a cell that holds no mine and has count 0: no
  coordinate occurs twice among the returned records; every returned coordinate was
  unexposed before the call; the returned coordinates form one 8-connected region; and
  the region ends only at cells of non-zero count or at the edge of the grid: a returned
  cell next to a cell of the board that is still unexposed after the call has a non-zero
  count (so all in-bounds neighbours of a returned cell of count 0 are exposed).
\<close>

theorem flood_region:
  assumes inv: "game_inv g" and s: "select g x y = Some (Inr m, g')"
    and nm: "\<not> is_mine g (x, y)" and z: "count_at g (x, y) = 0"
  shows "inj_on coord (new_squares m) \<and>
         (\<forall>q\<in>new_squares m. in_board g (coord q) \<and> \<not> is_exposed g (coord q) \<and>
            is_exposed g' (coord q) \<and> sq_num_mines q = neighbour_mines g (coord q)) \<and>
         (x, y) \<in> coord ` new_squares m \<and>
         connected_region (coord ` new_squares m) \<and>
         (\<forall>q\<in>new_squares m. \<forall>n\<in>set (neighbours g (coord q)).
            \<not> is_exposed g' n \<longrightarrow> sq_num_mines q \<noteq> 0)"
proof -
  obtain squares where m: "m = MoveResult (status g') (set squares)"
    and mp: "move_post g x y squares g'"
    using select_returns [OF game_invD(1) [OF inv] s] by blast
  note D = move_postD [OF mp]
  have ns: "new_squares m = set squares" using m by simp
  have pe: "move_pend g (x, y) = {}" using nm z by (simp add: move_pend_def)
  have 1: "inj_on coord (new_squares m)" using move_post_distinct(3) [OF mp] ns by simp
  have 2: "\<forall>q\<in>new_squares m. in_board g (coord q) \<and> \<not> is_exposed g (coord q) \<and>
            is_exposed g' (coord q) \<and> sq_num_mines q = neighbour_mines g (coord q)"
  proof
    fix q assume q: "q \<in> new_squares m"
    then have a: "in_board g (coord q)" "\<not> is_exposed g (coord q)"
      "sq_num_mines q = count_at g (coord q)" using D(14) ns by blast+
    have "is_exposed g' (coord q)" using D(13) a(1) q ns by blast
    moreover have "count_at g (coord q) = neighbour_mines g (coord q)"
      using game_invD(2) [OF inv] a(1) by blast
    ultimately show "in_board g (coord q) \<and> \<not> is_exposed g (coord q) \<and>
            is_exposed g' (coord q) \<and> sq_num_mines q = neighbour_mines g (coord q)"
      using a by simp
  qed
  have 3: "(x, y) \<in> coord ` new_squares m" using D(17) ns by simp
  have "\<forall>c\<in>coord ` set squares. ((x, y), c) \<in> (adj_on (coord ` set squares))\<^sup>*"
    using D(15) by blast
  then have 4: "connected_region (coord ` new_squares m)"
    using connected_from_start ns by simp
  have 5: "\<forall>q\<in>new_squares m. \<forall>n\<in>set (neighbours g (coord q)).
            \<not> is_exposed g' n \<longrightarrow> sq_num_mines q \<noteq> 0"
  proof (intro ballI impI)
    fix q n assume q: "q \<in> new_squares m" and n: "n \<in> set (neighbours g (coord q))"
      and u: "\<not> is_exposed g' n"
    have "sq_num_mines q = count_at g (coord q)" using D(14) q ns by blast
    moreover have "count_at g (coord q) \<noteq> 0" using D(16) q ns pe n u by blast
    ultimately show "sq_num_mines q \<noteq> 0" by simp
  qed
  show ?thesis using 1 2 3 4 5 by (intro conjI)
qed

theorem flood_region_witness:
  "game_inv board3 \<and> \<not> is_mine board3 (0, 0) \<and> count_at board3 (0, 0) = 0 \<and>
   select board3 0 0 =
     Some (Inr (MoveResult VICTORY
                 {Square 0 0 0, Square 0 1 0, Square 0 2 0, Square 1 0 0, Square 2 0 0,
                  Square 1 1 1, Square 1 2 1, Square 2 1 1}),
           board3\<lparr>num_moves := 1, num_exposed_squares := 8,
                  exposed := [[True, True, True], [True, True, True], [True, True, False]]\<rparr>) \<and>
   connected_region (coord `
      {Square 0 0 0, Square 0 1 0, Square 0 2 0, Square 1 0 0, Square 2 0 0,
       Square 1 1 1, Square 1 2 1, Square 2 1 1}) \<and>
   inj_on coord
      {Square 0 0 0, Square 0 1 0, Square 0 2 0, Square 1 0 0, Square 2 0 0,
       Square 1 1 1, Square 1 2 1, Square 2 1 1}"
proof -
  note T = flood_region [OF game_inv_board3 select_board3_origin
      conjunct1 [OF board3_origin_facts] conjunct2 [OF board3_origin_facts]]
  have a: "connected_region (coord `
      {Square 0 0 0, Square 0 1 0, Square 0 2 0, Square 1 0 0, Square 2 0 0,
       Square 1 1 1, Square 1 2 1, Square 2 1 1})"
    using T by simp
  have b: "inj_on coord
      {Square 0 0 0, Square 0 1 0, Square 0 2 0, Square 1 0 0, Square 2 0 0,
       Square 1 1 1, Square 1 2 1, Square 2 1 1}"
    using T by simp
  show ?thesis
    using game_inv_board3 board3_origin_facts select_board3_origin a b by (intro conjI) simp_all
qed

section \<open>The count of exposed cells\<close>

text \<open>
  C6. After a selection that returns, the count of exposed cells has grown by exactly the
  number of records returned; no operation (a selection, returning or raising, or
  \<^verbatim>\<open>quit\<close>) lowers it; and it does not exceed \<open>width * height - num_mines\<close> while the
  status is \<^verbatim>\<open>PLAYING\<close> or \<^verbatim>\<open>VICTORY\<close>. The count is the attribute
  \<^verbatim>\<open>_num_exposed_squares\<close>, which is the number of exposed cells of the board.
\<close>

theorem exposed_count_invariant:
  assumes inv: "game_inv g"
  shows "num_exposed_squares g = int (length (exposed_cells g)) \<and>
         (\<forall>x y m g'. select g x y = Some (Inr m, g') \<longrightarrow>
            num_exposed_squares g' = num_exposed_squares g + int (card (new_squares m)) \<and>
            length (exposed_cells g') = length (exposed_cells g) + card (new_squares m)) \<and>
         (\<forall>x y r g'. select g x y = Some (r, g') \<longrightarrow>
            num_exposed_squares g \<le> num_exposed_squares g') \<and>
         num_exposed_squares g \<le> num_exposed_squares (quit g) \<and>
         (status g = PLAYING \<or> status g = VICTORY \<longrightarrow>
            num_exposed_squares g \<le> width g * height g - num_mines g)"
proof (intro conjI allI impI)
  show "num_exposed_squares g = int (length (exposed_cells g))"
    using inv by (simp add: game_inv_def)
next
  fix x y m g' assume s: "select g x y = Some (Inr m, g')"
  obtain squares where m: "m = MoveResult (status g') (set squares)"
    and mp: "move_post g x y squares g'"
    using select_returns [OF game_invD(1) [OF inv] s] by blast
  have c: "card (new_squares m) = length squares" using m move_post_distinct(2) [OF mp] by simp
  show "num_exposed_squares g' = num_exposed_squares g + int (card (new_squares m))"
    using move_postD(11) [OF mp] c by simp
  have inv': "game_inv g'" using select_game_inv [OF inv s] .
  have "int (length (exposed_cells g')) = num_exposed_squares g'"
    using inv' by (simp add: game_inv_def)
  moreover have "int (length (exposed_cells g)) = num_exposed_squares g"
    using inv by (simp add: game_inv_def)
  ultimately show "length (exposed_cells g') = length (exposed_cells g) + card (new_squares m)"
    using move_postD(11) [OF mp] c by simp
next
  fix x y r g' assume s: "select g x y = Some (r, g')"
  show "num_exposed_squares g \<le> num_exposed_squares g'"
  proof (cases r)
    case (Inl e)
    then show ?thesis using select_raises [of g x y e g'] s by simp
  next
    case (Inr m)
    then obtain squares where "move_post g x y squares g'"
      using select_returns [OF game_invD(1) [OF inv], of x y m g'] s by blast
    then show ?thesis using move_postD(11) by simp
  qed
next
  show "num_exposed_squares g \<le> num_exposed_squares (quit g)" by simp
next
  assume "status g = PLAYING \<or> status g = VICTORY"
  then have "\<not> explosion g" by (auto simp: status_def game_over_def split: if_splits)
  then show "num_exposed_squares g \<le> width g * height g - num_mines g"
    using exposed_bound [OF inv] by simp
qed

theorem exposed_count_invariant_witness:
  "game_inv board3 \<and>
   select board3 0 0 =
     Some (Inr (MoveResult VICTORY
                 {Square 0 0 0, Square 0 1 0, Square 0 2 0, Square 1 0 0, Square 2 0 0,
                  Square 1 1 1, Square 1 2 1, Square 2 1 1}),
           board3\<lparr>num_moves := 1, num_exposed_squares := 8,
                  exposed := [[True, True, True], [True, True, True], [True, True, False]]\<rparr>) \<and>
   status board3 = PLAYING \<and>
   num_exposed_squares
     (board3\<lparr>num_moves := 1, num_exposed_squares := 8,
             exposed := [[True, True, True], [True, True, True], [True, True, False]]\<rparr>)
   = num_exposed_squares board3 +
     int (card (new_squares (MoveResult VICTORY
                 {Square 0 0 0, Square 0 1 0, Square 0 2 0, Square 1 0 0, Square 2 0 0,
                  Square 1 1 1, Square 1 2 1, Square 2 1 1}))) \<and>
   num_exposed_squares board3 \<le> width board3 * height board3 - num_mines board3"
proof -
  note T = exposed_count_invariant [OF game_inv_board3]
  have st: "status board3 = PLAYING" by code_simp
  have a: "num_exposed_squares
     (board3\<lparr>num_moves := 1, num_exposed_squares := 8,
             exposed := [[True, True, True], [True, True, True], [True, True, False]]\<rparr>)
   = num_exposed_squares board3 +
     int (card (new_squares (MoveResult VICTORY
                 {Square 0 0 0, Square 0 1 0, Square 0 2 0, Square 1 0 0, Square 2 0 0,
                  Square 1 1 1, Square 1 2 1, Square 2 1 1})))"
    using T select_board3_origin by blast
  have b: "num_exposed_squares board3 \<le> width board3 * height board3 - num_mines board3"
    using T st by blast
  show ?thesis using game_inv_board3 select_board3_origin st a b by (intro conjI)
qed

section \<open>The errors of a selection\<close>

text \<open>
  C7. \<^verbatim>\<open>select(x, y)\<close> raises the out-of-bounds error exactly when \<open>(x, y)\<close> is outside the
  board; for a cell of the board it raises the already-over error exactly when a mine has
  been exposed; otherwise it raises the already-exposed error exactly when the cell is
  exposed; in the remaining case it returns a \<^verbatim>\<open>MoveResult\<close>.
\<close>

theorem select_errors:
  assumes inv: "game_inv g"
  shows "\<exists>r g'. select g x y = Some (r, g') \<and>
           (r = Inl OutsideBoard \<longleftrightarrow> \<not> in_board g (x, y)) \<and>
           (r = Inl AlreadyOver \<longleftrightarrow>
              in_board g (x, y) \<and> (\<exists>c. in_board g c \<and> is_exposed g c \<and> is_mine g c)) \<and>
           (r = Inl AlreadyExposed \<longleftrightarrow>
              in_board g (x, y) \<and> \<not> (\<exists>c. in_board g c \<and> is_exposed g c \<and> is_mine g c) \<and>
              is_exposed g (x, y)) \<and>
           ((\<exists>m. r = Inr m) \<longleftrightarrow>
              in_board g (x, y) \<and> \<not> (\<exists>c. in_board g c \<and> is_exposed g c \<and> is_mine g c) \<and>
              \<not> is_exposed g (x, y))"
proof -
  have ex: "explosion g \<longleftrightarrow> (\<exists>c. in_board g c \<and> is_exposed g c \<and> is_mine g c)"
    using game_invD(6) [OF inv] .
  consider (out) "\<not> in_board g (x, y)"
    | (over) "in_board g (x, y)" "explosion g"
    | (exposed) "in_board g (x, y)" "\<not> explosion g" "is_exposed g (x, y)"
    | (ok) "in_board g (x, y)" "\<not> explosion g" "\<not> is_exposed g (x, y)" by blast
  then show ?thesis
  proof cases
    case out
    then show ?thesis using select_outside [of g x y] by simp
  next
    case over
    then show ?thesis using select_over [of g x y] ex by simp
  next
    case exposed
    then show ?thesis using select_exposed [of g x y] ex by simp
  next
    case ok
    then obtain squares g' where
      "select g x y = Some (Inr (MoveResult (status g') (set squares)), g')"
      using select_move_post [OF game_invD(1) [OF inv], of x y] by blast
    then show ?thesis using ok ex by simp
  qed
qed

theorem select_errors_witness:
  "game_inv board3 \<and>
   (\<exists>r g'. select board3 0 0 = Some (r, g') \<and>
           (r = Inl OutsideBoard \<longleftrightarrow> \<not> in_board board3 (0, 0)) \<and>
           (r = Inl AlreadyOver \<longleftrightarrow>
              in_board board3 (0, 0) \<and>
              (\<exists>c. in_board board3 c \<and> is_exposed board3 c \<and> is_mine board3 c)) \<and>
           (r = Inl AlreadyExposed \<longleftrightarrow>
              in_board board3 (0, 0) \<and>
              \<not> (\<exists>c. in_board board3 c \<and> is_exposed board3 c \<and> is_mine board3 c) \<and>
              is_exposed board3 (0, 0)) \<and>
           ((\<exists>m. r = Inr m) \<longleftrightarrow>
              in_board board3 (0, 0) \<and>
              \<not> (\<exists>c. in_board board3 c \<and> is_exposed board3 c \<and> is_mine board3 c) \<and>
              \<not> is_exposed board3 (0, 0)))"
  using select_errors [OF game_inv_board3, of 0 0] game_inv_board3 by (rule_tac conjI)

section \<open>Reading the result\<close>

text \<open>
  C8. Reading \<^verbatim>\<open>result\<close> raises the invalid-state error exactly when the game is not
  over (its status is \<^verbatim>\<open>PLAYING\<close>); when the game is over, it returns a record whose
  \<^verbatim>\<open>victory\<close> is true exactly when the status is \<^verbatim>\<open>VICTORY\<close> and whose \<^verbatim>\<open>num_moves\<close> is the
  number of calls of \<^verbatim>\<open>select\<close> that returned since the game was constructed. \<open>play\<close> runs
  a list of calls of \<^verbatim>\<open>select\<close> and \<^verbatim>\<open>quit\<close> and counts the calls of \<^verbatim>\<open>select\<close> that
  returned.
\<close>

theorem result_spec:
  assumes "constructed config g0" and "play g0 ops = Some (g, n)"
  shows "((\<exists>e. result g = Inl e) \<longleftrightarrow> status g = PLAYING) \<and>
         (status g = PLAYING \<longrightarrow> result g = Inl GameNotOver) \<and>
         (status g \<noteq> PLAYING \<longrightarrow>
            result g = Inr (GameResult (status g = VICTORY) (int n)))"
proof -
  have "game_inv g0" "num_moves g0 = 0" using assms(1) by (simp_all add: constructed_def)
  then have "num_moves g = int n" using play_result [OF _ assms(2)] by simp
  then show ?thesis by (simp add: result_def status_PLAYING)
qed

theorem result_spec_witness:
  "constructed config3 board3 \<and>
   play board3 [Select 5 5, Select 0 0, Select 0 0] = Some (board3_after, 1) \<and>
   status board3_after \<noteq> PLAYING \<and>
   result board3_after = Inr (GameResult True 1)"
proof -
  note T = result_spec [OF constructed_board3 play_board3]
  have s: "status board3_after = VICTORY" using board3_after_facts by simp
  then have "result board3_after = Inr (GameResult True 1)" using T by simp
  then show ?thesis using constructed_board3 play_board3 s by simp
qed

section \<open>Termination of the solver's loop\<close>

text \<open>
  C9. On a board with at least one cell, for every equation system (a pair
  \<^verbatim>\<open>eqs, eq_values\<close> of the board's shape in which a cell with a non-empty equation has a
  value and every equation holds cells of the board whose value is \<^verbatim>\<open>None\<close>, as
  \<^verbatim>\<open>calc_equations\<close> builds them), the loop of \<^verbatim>\<open>find_safe_and_mine\<close> takes its
  \<^verbatim>\<open>break\<close> within \<open>width * height\<close> passes and returns the sets of its last pass; from
  one pass to the next the accumulated mine set and the accumulated safe set each grow
  (the sets of a pass are contained in those of the next), and neither ever holds more
  than \<open>width * height\<close> coordinates.
\<close>

theorem solver_termination:
  assumes w: "0 < ai_width ai" and h: "0 < ai_height ai" and sys: "eq_system ai (eqs, eq_values)"
  shows "\<exists>r. find_safe_and_mine ai eqs eq_values = Some (Inr r) \<and>
             fsm_passes (nat (ai_width ai * ai_height ai)) ai (eqs, eq_values) [] [] = Some (Inr r) \<and>
             last (fsm_trace (nat (ai_width ai * ai_height ai)) ai (eqs, eq_values) [] []) = r \<and>
             growing (([], []) # fsm_trace (nat (ai_width ai * ai_height ai)) ai (eqs, eq_values) [] []) \<and>
             (\<forall>p\<in>set (fsm_trace (nat (ai_width ai * ai_height ai)) ai (eqs, eq_values) [] []).
                card (set (fst p)) \<le> nat (ai_width ai * ai_height ai) \<and>
                card (set (snd p)) \<le> nat (ai_width ai * ai_height ai))"
proof -
  let ?s = "(eqs, eq_values)"
  let ?N = "nat (ai_width ai * ai_height ai)"
  have sh: "eq_shape ai ?s" and k: "keyed ai ?s" using sys by (simp_all add: eq_system_def)
  have c: "card (eq_union ai ?s) < ?N" using eq_system_bound [OF sys w h] .
  obtain r where p: "fsm_passes ?N ai ?s [] [] = Some (Inr r)"
    and la: "last (fsm_trace ?N ai ?s [] []) = r"
    and gr: "growing (([], []) # fsm_trace ?N ai ?s [] [])"
    and bd: "\<forall>p\<in>set (fsm_trace ?N ai ?s [] []).
                set (fst p) \<subseteq> set [] \<union> eq_union ai ?s \<and> set (snd p) \<subseteq> set [] \<union> eq_union ai ?s"
    using fsm_trace_result [OF sh k c, of "[]" "[]"] by blast
  have loop: "find_safe_and_mine ai eqs eq_values = Some (Inr r)"
    using fsm_passes_loop [OF p] by (simp add: find_safe_and_mine_def)
  have cb: "\<And>A. A \<subseteq> eq_union ai ?s \<Longrightarrow> card A \<le> ?N"
  proof -
    fix A assume "A \<subseteq> eq_union ai ?s"
    then have "card A \<le> card (eq_union ai ?s)" using finite_eq_union [of ai ?s] by (simp add: card_mono)
    then show "card A \<le> ?N" using c by simp
  qed
  have "\<forall>p\<in>set (fsm_trace ?N ai ?s [] []). card (set (fst p)) \<le> ?N \<and> card (set (snd p)) \<le> ?N"
    using bd cb by simp
  then show ?thesis using loop p la gr by blast
qed

theorem solver_termination_witness:
  "0 < ai_width ai51 \<and> 0 < ai_height ai51 \<and>
   eq_system ai51 (calc_equations ai51 (state board51), state board51) \<and>
   find_safe_and_mine ai51 (calc_equations ai51 (state board51)) (state board51)
     = Some (Inr ([(2, 0), (0, 0)], [(4, 0)])) \<and>
   fsm_passes (nat (ai_width ai51 * ai_height ai51)) ai51
     (calc_equations ai51 (state board51), state board51) [] []
     = Some (Inr ([(2, 0), (0, 0)], [(4, 0)])) \<and>
   growing (([], []) # fsm_trace (nat (ai_width ai51 * ai_height ai51)) ai51
     (calc_equations ai51 (state board51), state board51) [] [])"
proof -
  have sys: "eq_system ai51 (calc_equations ai51 (state board51), state board51)"
    using board_eq_system [OF game_invD(1) [OF game_inv_board51] tracks_board51] .
  note T = solver_termination [OF board51_facts(2,3) sys]
  have a: "fsm_passes (nat (ai_width ai51 * ai_height ai51)) ai51
     (calc_equations ai51 (state board51), state board51) [] []
     = Some (Inr ([(2, 0), (0, 0)], [(4, 0)]))"
    using T solve_board51 by auto
  have b: "growing (([], []) # fsm_trace (nat (ai_width ai51 * ai_height ai51)) ai51
     (calc_equations ai51 (state board51), state board51) [] [])"
    using T by blast
  show ?thesis using board51_facts(2,3) sys solve_board51 a b by blast
qed

section \<open>Atomicity of a failed selection\<close>

text \<open>
  C10. Whenever \<^verbatim>\<open>select(x, y)\<close> raises one of its errors, the game is unchanged: no
  cell's exposure changes, the move counter is not incremented and the explosion flag is
  not set, since all three checks come before the first mutation.
\<close>

theorem select_error_unchanged:
  assumes "select g x y = Some (Inl e, g')"
  shows "g' = g"
  using assms
  by (auto simp: select_def split: if_splits option.splits prod.splits)

theorem select_error_unchanged_witness:
  "select board3 (- 1) 0 = Some (Inl OutsideBoard, board3) \<and> board3 = board3"
  using select_error_unchanged [OF select_board3_outside] select_board3_outside by simp

end
